theory Spec2Isabelle
  imports Main "HOL-Library.Word" "HOL-Library.Signed_Division"
begin

unbundle bit_operations_syntax

section \<open>The capture session\<close>

text \<open>
  Modelled from the spec: \<^verbatim>\<open>struct capture_info\<close> and \<^verbatim>\<open>MAX_REQUEST_BUFFER_SIZE\<close> are
  declared in \<^verbatim>\<open>capture.h\<close>, which is not among the sources. The fields below are the ones
  \<^verbatim>\<open>main.c\<close> reads and writes. The dimensions are C \<^verbatim>\<open>int\<close>s (\<^verbatim>\<open>main.c\<close> copies them
  into \<^verbatim>\<open>int\<close> locals and sends four bytes of each), the backend name is the 16-byte
  field of the capability frame, and the three thresholds hold the pre-shifted values of
  the packed 16-bit colour layout that \<^verbatim>\<open>set_mono_threshold\<close> stores. The request buffer
  is an array of \<^verbatim>\<open>MAX_REQUEST_BUFFER_SIZE\<close> bytes: the length of the list
  \<open>request_buffer\<close> stands for that constant, so every theorem holds for each value of it.
  The pixel buffers are lists indexed from the start of the allocation; \<^verbatim>\<open>work\<close> is
  write-only and appears as the result of the emitters.
\<close>

type_synonym byte = "8 word"

record capture_info =
  backend_name :: "byte list"
  display_id :: "32 word"
  display_width :: int
  display_height :: int
  capture_width :: int
  capture_height :: int
  capture_stride :: int
  buffer :: "16 word list"
  dithering_buffer :: "16 word list"
  dithering :: byte
  mono_threshold_r5 :: "16 word"
  mono_threshold_g6 :: "16 word"
  mono_threshold_b5 :: "16 word"
  send_snapshot :: int
  request_buffer_ix :: nat
  request_buffer :: "byte list"

text \<open>
  \<^verbatim>\<open>set_mono_threshold\<close>: the \<^verbatim>\<open>uint8_t\<close> argument is promoted to \<^verbatim>\<open>int\<close>, shifted there,
  and the result is stored into the 16-bit field.
\<close>

definition set_mono_threshold :: "capture_info \<Rightarrow> byte \<Rightarrow> capture_info" where
  "set_mono_threshold info threshold =
     info\<lparr>mono_threshold_r5 := word_of_int (drop_bit 3 (uint threshold)),
          mono_threshold_g6 := word_of_int (push_bit 5 (drop_bit 2 (uint threshold))),
          mono_threshold_b5 := word_of_int (push_bit 11 (drop_bit 3 (uint threshold)))\<rparr>"

definition set_dithering :: "capture_info \<Rightarrow> byte \<Rightarrow> capture_info" where
  "set_dithering info v = info\<lparr>dithering := v\<rparr>"

definition to_1bpp :: "capture_info \<Rightarrow> 16 word \<Rightarrow> int" where
  "to_1bpp info rgb565 =
     (if rgb565 AND 0x001f > mono_threshold_r5 info \<or>
         rgb565 AND 0x07e0 > mono_threshold_g6 info \<or>
         rgb565 AND 0xf800 > mono_threshold_b5 info
      then 1 else 0)"

section \<open>The command parser\<close>

datatype exit_status = EXIT_SUCCESS | EXIT_FAILURE

text \<open>
  What \<^verbatim>\<open>read(2)\<close> gave \<^verbatim>\<open>handle_stdin\<close>: an error, or the bytes it stored (none at end of
  stream). The kernel stores at most the \<^verbatim>\<open>MAX_REQUEST_BUFFER_SIZE - request_buffer_ix - 1\<close>
  bytes it was asked for.
\<close>

datatype read_result = Read_failed | Read_bytes "byte list"

definition store_at :: "byte list \<Rightarrow> nat \<Rightarrow> byte list \<Rightarrow> byte list" where
  "store_at buf ix d = take ix buf @ d @ drop (ix + length d) buf"

text \<open>\<^verbatim>\<open>memmove(buf, buf + src, n)\<close>\<close>

definition memmove_front :: "byte list \<Rightarrow> nat \<Rightarrow> nat \<Rightarrow> byte list" where
  "memmove_front buf src n = take n (drop src buf) @ drop n buf"

text \<open>The \<^verbatim>\<open>switch\<close> on \<^verbatim>\<open>request_buffer[4]\<close>.\<close>

definition dispatch_command :: "capture_info \<Rightarrow> capture_info" where
  "dispatch_command info =
     (let cmd = request_buffer info ! 4 in
      if cmd = 1 \<or> cmd = 2 \<or> cmd = 3 \<or> cmd = 4 \<or> cmd = 5
        then info\<lparr>send_snapshot := uint cmd\<rparr>
      else if cmd = 6 then set_mono_threshold info (request_buffer info ! 5)
      else if cmd = 7 then set_dithering info (request_buffer info ! 5)
      else info)"

text \<open>The end of the loop body: \<^verbatim>\<open>request_buffer_ix -= len\<close> and the \<^verbatim>\<open>memmove\<close>.\<close>

definition consume_command :: "capture_info \<Rightarrow> byte \<Rightarrow> capture_info" where
  "consume_command info len =
     (let ix = request_buffer_ix info - unat len in
      info\<lparr>request_buffer_ix := ix,
           request_buffer := (if 0 < ix then memmove_front (request_buffer info) (unat len) ix
                              else request_buffer info)\<rparr>)"

text \<open>
  The \<^verbatim>\<open>while\<close> loop of \<^verbatim>\<open>handle_stdin\<close>. \<^verbatim>\<open>len\<close> is a \<^verbatim>\<open>uint8_t\<close>, so \<open>4 + L\<close> wraps at
  256; with \<open>len = 0\<close> the body changes nothing and the loop does not end, which is the
  value \<open>None\<close> here. \<open>Inl\<close> is a call of \<^verbatim>\<open>err\<close> or \<^verbatim>\<open>exit\<close>.
\<close>

partial_function (option) command_loop :: "capture_info \<Rightarrow> (exit_status + capture_info) option" where
  "command_loop info =
     (if 5 \<le> request_buffer_ix info then
        if request_buffer info ! 0 \<noteq> 0 \<or> request_buffer info ! 1 \<noteq> 0 \<or> request_buffer info ! 2 \<noteq> 0
          then Some (Inl EXIT_FAILURE)
        else
          let len = 4 + request_buffer info ! 3 in
          if request_buffer_ix info < unat len then Some (Inr info)
          else command_loop (consume_command (dispatch_command info) len)
      else Some (Inr info))"

declare command_loop.simps [code]

definition handle_stdin :: "capture_info \<Rightarrow> read_result \<Rightarrow> (exit_status + capture_info) option" where
  "handle_stdin info rd =
     (case rd of
        Read_failed \<Rightarrow> Some (Inl EXIT_FAILURE)
      | Read_bytes d \<Rightarrow>
          if d = [] then Some (Inl EXIT_SUCCESS)
          else command_loop
                 (info\<lparr>request_buffer := store_at (request_buffer info) (request_buffer_ix info) d,
                       request_buffer_ix := request_buffer_ix info + length d\<rparr>))"

section \<open>Command frames on the wire\<close>

text \<open>
  The wire format of the specification: three zero bytes, a length byte \<open>L\<close> that counts
  the bytes after it, the command code and the argument bytes, so \<open>L = 1 + length args\<close>.
  A frame is well formed when its \<open>L + 4\<close> bytes fit the parser's 8-bit length
  (\<open>length args \<le> 250\<close>) and codes 6 and 7 carry their argument byte. The frames of the
  specification (\<open>L = 1\<close> for codes 1 to 5, \<open>L = 2\<close> for codes 6 and 7) are of this kind.
\<close>

type_synonym command_frame = "byte \<times> byte list"

fun encode_frame :: "command_frame \<Rightarrow> byte list" where
  "encode_frame (cmd, args) = [0, 0, 0, of_nat (Suc (length args)), cmd] @ args"

fun wf_frame :: "command_frame \<Rightarrow> bool" where
  "wf_frame (cmd, args) \<longleftrightarrow> length args \<le> 250 \<and> (cmd = 6 \<or> cmd = 7 \<longrightarrow> args \<noteq> [])"

text \<open>The effect the command table of the specification gives to one frame.\<close>

fun apply_frame :: "capture_info \<Rightarrow> command_frame \<Rightarrow> capture_info" where
  "apply_frame info (cmd, args) =
     (if cmd = 1 \<or> cmd = 2 \<or> cmd = 3 \<or> cmd = 4 \<or> cmd = 5
        then info\<lparr>send_snapshot := uint cmd\<rparr>
      else if cmd = 6 then set_mono_threshold info (hd args)
      else if cmd = 7 then set_dithering info (hd args)
      else info)"

text \<open>
  Successive calls of \<open>handle_stdin\<close>, one per piece that \<^verbatim>\<open>read\<close> returns, with nothing
  between the calls; a call that exits or does not return ends the run.
\<close>

fun deliver :: "capture_info \<Rightarrow> byte list list \<Rightarrow> (exit_status + capture_info) option" where
  "deliver info [] = Some (Inr info)"
| "deliver info (c # cs) =
     (case handle_stdin info (Read_bytes c) of
        Some (Inr info') \<Rightarrow> deliver info' cs
      | r \<Rightarrow> r)"

text \<open>
  \<open>session_of\<close> is the session without the inbound buffer: every field but
  \<open>request_buffer\<close> and \<open>request_buffer_ix\<close>. \<open>pending\<close> is the part of the inbound
  buffer that holds received, unconsumed bytes.
\<close>

definition session_of :: "capture_info \<Rightarrow> capture_info" where
  "session_of info = info\<lparr>request_buffer_ix := 0, request_buffer := []\<rparr>"

definition pending :: "capture_info \<Rightarrow> byte list" where
  "pending info = take (request_buffer_ix info) (request_buffer info)"

section \<open>The output framer and the pixel encoders\<close>

text \<open>
  Every emitter starts at \<^verbatim>\<open>info->work\<close>, advances \<^verbatim>\<open>out\<close> over the bytes it stores and
  hands \<^verbatim>\<open>out - info->work\<close> bytes to \<^verbatim>\<open>write_stdout\<close>. The model of an emitter returns
  these bytes in order; their number is how far the emitter wrote into \<^verbatim>\<open>work\<close>, whose
  size is fixed by \<^verbatim>\<open>initialize\<close>.
\<close>

text \<open>
  The argument of \<^verbatim>\<open>malloc\<close> for \<^verbatim>\<open>work\<close> in \<^verbatim>\<open>initialize\<close>,
  \<^verbatim>\<open>info->capture_width * info->capture_height * 4\<close>, is a product of three \<^verbatim>\<open>int\<close>s,
  computed in 32 bits before it is converted to \<^verbatim>\<open>size_t\<close>. The product is taken in
  \<^typ>\<open>32 word\<close> and read as a signed number, so it wraps around where the exact product
  leaves the range of \<^verbatim>\<open>int\<close> (C leaves that case undefined; two's-complement wrap-around
  is what the machine multiplication gives): 32768 by 32768 pixels give a capacity of 0. A
  negative value stands for a request that \<^verbatim>\<open>malloc\<close> cannot satisfy.
\<close>

definition work_capacity :: "capture_info \<Rightarrow> int" where
  "work_capacity info =
     sint (word_of_int (capture_width info) * word_of_int (capture_height info) * (4 :: 32 word))"

definition add_packet_length :: "32 word \<Rightarrow> byte list" where
  "add_packet_length sz =
     [ucast (drop_bit 24 sz), ucast (drop_bit 16 sz AND 0xff),
      ucast (drop_bit 8 sz AND 0xff), ucast (sz AND 0xff)]"

text \<open>
  \<^verbatim>\<open>p[i]\<close> for a pointer \<^verbatim>\<open>p\<close> into a pixel buffer: the pointer is kept as its offset from
  the start of the buffer and the index is added to it.
\<close>

definition pixel_at :: "16 word list \<Rightarrow> int \<Rightarrow> 16 word" where
  "pixel_at mem i = mem ! nat i"

text \<open>
  \<^verbatim>\<open>memcpy\<close> of \<^verbatim>\<open>uint16_t\<close> and \<^verbatim>\<open>uint32_t\<close> objects copies their bytes in the byte order
  of the machine.
\<close>

datatype byte_order = Little_endian | Big_endian

definition store16 :: "byte_order \<Rightarrow> 16 word \<Rightarrow> byte list" where
  "store16 bo w =
     (case bo of
        Little_endian \<Rightarrow> [ucast w, ucast (drop_bit 8 w)]
      | Big_endian \<Rightarrow> [ucast (drop_bit 8 w), ucast w])"

definition store32 :: "byte_order \<Rightarrow> 32 word \<Rightarrow> byte list" where
  "store32 bo w =
     (case bo of
        Little_endian \<Rightarrow> [ucast w, ucast (drop_bit 8 w), ucast (drop_bit 16 w), ucast (drop_bit 24 w)]
      | Big_endian \<Rightarrow> [ucast (drop_bit 24 w), ucast (drop_bit 16 w), ucast (drop_bit 8 w), ucast w])"

text \<open>\<^verbatim>\<open>memcpy(out, image, n)\<close>: the first \<open>n\<close> bytes of the pixels from \<open>image\<close> on.\<close>

definition memcpy_pixels :: "byte_order \<Rightarrow> 16 word list \<Rightarrow> int \<Rightarrow> int \<Rightarrow> byte list" where
  "memcpy_pixels bo mem img n =
     map (\<lambda>k. store16 bo (pixel_at mem (img + int (k div 2))) ! (k mod 2)) [0 ..< nat n]"

subsection \<open>\<^verbatim>\<open>emit_rgb24\<close>\<close>

text \<open>The three stores of the inner loop; each value is computed as an \<^verbatim>\<open>int\<close> and cut to a byte.\<close>

definition rgb24_bytes :: "16 word \<Rightarrow> byte list" where
  "rgb24_bytes pixel =
     [word_of_int (push_bit 3 (drop_bit 11 (uint pixel))),
      word_of_int (push_bit 2 (drop_bit 5 (uint pixel) AND 0x3f)),
      word_of_int (push_bit 3 (uint pixel AND 0x1f))]"

function rgb24_row :: "capture_info \<Rightarrow> int \<Rightarrow> int \<Rightarrow> byte list \<Rightarrow> byte list" where
  "rgb24_row info img x out =
     (if x < capture_width info
      then rgb24_row info img (x + 1) (out @ rgb24_bytes (pixel_at (buffer info) (img + x)))
      else out)"
  by pat_completeness auto
termination
  by (relation "measure (\<lambda>(info, img, x, out). nat (capture_width info - x))") auto

declare rgb24_row.simps [simp del]

function rgb24_rows :: "capture_info \<Rightarrow> int \<Rightarrow> int \<Rightarrow> byte list \<Rightarrow> byte list" where
  "rgb24_rows info img y out =
     (if y < capture_height info
      then rgb24_rows info (img + capture_stride info) (y + 1) (rgb24_row info img 0 out)
      else out)"
  by pat_completeness auto
termination
  by (relation "measure (\<lambda>(info, img, y, out). nat (capture_height info - y))") auto

declare rgb24_rows.simps [simp del]

definition emit_rgb24 :: "capture_info \<Rightarrow> byte list" where
  "emit_rgb24 info =
     rgb24_rows info 0 0
       (add_packet_length (word_of_int (3 * capture_width info * capture_height info)))"

subsection \<open>\<^verbatim>\<open>emit_rgb565\<close>\<close>

function rgb565_rows :: "byte_order \<Rightarrow> capture_info \<Rightarrow> int \<Rightarrow> int \<Rightarrow> byte list \<Rightarrow> byte list" where
  "rgb565_rows bo info img y out =
     (if y < capture_height info
      then rgb565_rows bo info (img + capture_stride info) (y + 1)
             (out @ memcpy_pixels bo (buffer info) img (capture_width info * 2))
      else out)"
  by pat_completeness auto
termination
  by (relation "measure (\<lambda>(bo, info, img, y, out). nat (capture_height info - y))") auto

declare rgb565_rows.simps [simp del]

definition emit_rgb565 :: "byte_order \<Rightarrow> capture_info \<Rightarrow> byte list" where
  "emit_rgb565 bo info =
     rgb565_rows bo info 0 0
       (add_packet_length (word_of_int (2 * capture_width info * capture_height info)))"

subsection \<open>\<^verbatim>\<open>emit_mono\<close>\<close>

text \<open>
  The byte both monochrome encoders build from eight decisions:
  \<^verbatim>\<open>b0 | (b1 << 1) | ... | (b7 << 7)\<close>, stored through a \<^verbatim>\<open>uint8_t\<close> pointer.
\<close>

definition pack8 :: "(nat \<Rightarrow> int) \<Rightarrow> byte" where
  "pack8 b =
     word_of_int (b 0 OR push_bit 1 (b 1) OR push_bit 2 (b 2) OR push_bit 3 (b 3) OR
                  push_bit 4 (b 4) OR push_bit 5 (b 5) OR push_bit 6 (b 6) OR push_bit 7 (b 7))"

text \<open>
  Modelled from the spec: \<^verbatim>\<open>DITHERING_NONE\<close> and \<^verbatim>\<open>dithering_apply\<close> come from
  \<^verbatim>\<open>dithering.h\<close>, which is not among the sources. The specification has dithering enabled
  by a non-zero mode byte, so \<^verbatim>\<open>DITHERING_NONE\<close> is 0. \<^verbatim>\<open>dithering_apply\<close> fills the residual
  buffer from the session and is a replaceable strategy in the specification: the encoders
  take it as a parameter that returns the contents of the residual buffer after the call.
\<close>

definition DITHERING_NONE :: byte where
  "DITHERING_NONE = 0"

type_synonym dithering_engine = "capture_info \<Rightarrow> 16 word list"

function mono_row :: "capture_info \<Rightarrow> int \<Rightarrow> int \<Rightarrow> byte list \<Rightarrow> int \<times> byte list" where
  "mono_row info img x out =
     (if x < capture_width info
      then mono_row info (img + 8) (x + 8)
             (out @ [pack8 (\<lambda>i. to_1bpp info (pixel_at (buffer info) (img + int i)))])
      else (img, out))"
  by pat_completeness auto
termination
  by (relation "measure (\<lambda>(info, img, x, out). nat (capture_width info - x))") auto

declare mono_row.simps [simp del]

function mono_rows :: "capture_info \<Rightarrow> int \<Rightarrow> int \<Rightarrow> byte list \<Rightarrow> byte list" where
  "mono_rows info img y out =
     (if y < capture_height info
      then mono_rows info
             (fst (mono_row info img 0 out) + (capture_stride info - capture_width info))
             (y + 1) (snd (mono_row info img 0 out))
      else out)"
  by pat_completeness auto
termination
  by (relation "measure (\<lambda>(info, img, y, out). nat (capture_height info - y))") auto

declare mono_rows.simps [simp del]

function dither_row :: "capture_info \<Rightarrow> 16 word list \<Rightarrow> int \<Rightarrow> int \<Rightarrow> byte list \<Rightarrow> int \<times> byte list" where
  "dither_row info dbuf b x out =
     (if x < capture_width info
      then dither_row info dbuf (b + 8) (x + 8)
             (out @ [pack8 (\<lambda>i. if pixel_at dbuf (b + int i) \<noteq> 0 then 1 else 0)])
      else (b, out))"
  by pat_completeness auto
termination
  by (relation "measure (\<lambda>(info, dbuf, b, x, out). nat (capture_width info - x))") auto

declare dither_row.simps [simp del]

function dither_rows :: "capture_info \<Rightarrow> 16 word list \<Rightarrow> int \<Rightarrow> int \<Rightarrow> byte list \<Rightarrow> byte list" where
  "dither_rows info dbuf b y out =
     (if y < capture_height info
      then dither_rows info dbuf (fst (dither_row info dbuf b 0 out)) (y + 1)
             (snd (dither_row info dbuf b 0 out))
      else out)"
  by pat_completeness auto
termination
  by (relation "measure (\<lambda>(info, dbuf, b, y, out). nat (capture_height info - y))") auto

declare dither_rows.simps [simp del]

definition emit_mono :: "dithering_engine \<Rightarrow> capture_info \<Rightarrow> byte list" where
  "emit_mono dithering_apply info =
     (let out = add_packet_length (word_of_int (capture_width info * capture_height info sdiv 8)) in
      if dithering info = DITHERING_NONE then mono_rows info 0 0 out
      else dither_rows info (dithering_apply info) 0 0 out)"

subsection \<open>\<^verbatim>\<open>emit_mono_rotate_flip\<close>\<close>

function rotate_col :: "capture_info \<Rightarrow> int \<Rightarrow> int \<Rightarrow> byte list \<Rightarrow> byte list" where
  "rotate_col info column y out =
     (if y < capture_height info
      then rotate_col info (column + 8 * capture_stride info) (y + 8)
             (out @ [pack8 (\<lambda>i. to_1bpp info
                        (pixel_at (buffer info) (column + int i * capture_stride info)))])
      else out)"
  by pat_completeness auto
termination
  by (relation "measure (\<lambda>(info, column, y, out). nat (capture_height info - y))") auto

declare rotate_col.simps [simp del]

function rotate_cols :: "capture_info \<Rightarrow> int \<Rightarrow> int \<Rightarrow> byte list \<Rightarrow> byte list" where
  "rotate_cols info img x out =
     (if x < capture_width info
      then rotate_cols info (img + 1) (x + 1) (rotate_col info img 0 out)
      else out)"
  by pat_completeness auto
termination
  by (relation "measure (\<lambda>(info, img, x, out). nat (capture_width info - x))") auto

declare rotate_cols.simps [simp del]

text \<open>
  The loops of the dithering branch count in \<^verbatim>\<open>uint16_t\<close>: the counter is compared with the
  \<^verbatim>\<open>int\<close> dimension after promotion and wraps at 65536 when it is advanced. A loop that
  does not end is the value \<open>None\<close>.
\<close>

partial_function (option) rotate_dither_col ::
  "capture_info \<Rightarrow> 16 word list \<Rightarrow> int \<Rightarrow> 16 word \<Rightarrow> byte list \<Rightarrow> byte list option" where
  "rotate_dither_col info dbuf column y out =
     (if uint y < capture_height info
      then rotate_dither_col info dbuf (column + 8 * capture_width info) (y + 8)
             (out @ [pack8 (\<lambda>i. if pixel_at dbuf (column + capture_width info * int i) \<noteq> 0
                                 then 1 else 0)])
      else Some out)"

partial_function (option) rotate_dither_cols ::
  "capture_info \<Rightarrow> 16 word list \<Rightarrow> int \<Rightarrow> 16 word \<Rightarrow> byte list \<Rightarrow> byte list option" where
  "rotate_dither_cols info dbuf dbuf_p x out =
     (if uint x < capture_width info
      then Option.bind (rotate_dither_col info dbuf dbuf_p 0 out)
             (rotate_dither_cols info dbuf (dbuf_p + 1) (x + 1))
      else Some out)"

declare rotate_dither_col.simps [code]
declare rotate_dither_cols.simps [code]

definition emit_mono_rotate_flip :: "dithering_engine \<Rightarrow> capture_info \<Rightarrow> byte list option" where
  "emit_mono_rotate_flip dithering_apply info =
     (let out = add_packet_length (word_of_int (capture_width info * capture_height info sdiv 8)) in
      if dithering info = DITHERING_NONE then Some (rotate_cols info 0 0 out)
      else rotate_dither_cols info (dithering_apply info) 0 0 out)"

subsection \<open>\<^verbatim>\<open>emit_capture_info\<close> and \<^verbatim>\<open>send_snapshot\<close>\<close>

definition emit_capture_info :: "byte_order \<Rightarrow> capture_info \<Rightarrow> byte list" where
  "emit_capture_info bo info =
     add_packet_length 36 @
     take 16 (backend_name info) @
     store32 bo (display_id info) @
     store32 bo (word_of_int (display_width info)) @
     store32 bo (word_of_int (display_height info)) @
     store32 bo (word_of_int (capture_width info)) @
     store32 bo (word_of_int (capture_height info))"

text \<open>
  The function \<^verbatim>\<open>send_snapshot\<close>; the field of the same name holds the pending request.
  The default branch writes nothing.
\<close>

definition send_snapshot_frame ::
  "dithering_engine \<Rightarrow> byte_order \<Rightarrow> capture_info \<Rightarrow> byte list option" where
  "send_snapshot_frame dithering_apply bo info =
     (if send_snapshot info = 1 \<or> send_snapshot info = 2 then Some (emit_rgb24 info)
      else if send_snapshot info = 3 then Some (emit_rgb565 bo info)
      else if send_snapshot info = 4 then Some (emit_mono dithering_apply info)
      else if send_snapshot info = 5 then emit_mono_rotate_flip dithering_apply info
      else Some [])"

section \<open>Reading a length prefix\<close>

text \<open>The value a consumer reads from a big-endian length field.\<close>

definition be32 :: "byte list \<Rightarrow> nat" where
  "be32 bs = foldl (\<lambda>a b. a * 256 + unat b) 0 bs"


section \<open>The decision of a pixel\<close>

text \<open>
  The bi-level decision the specification gives to the pixel in column \<open>x\<close> of row \<open>y\<close>:
  \<open>to_1bpp\<close> of the frame pixel without dithering, and with dithering whether the residual
  of the pixel, stored row by row without padding, is non-zero.
\<close>

definition decision :: "dithering_engine \<Rightarrow> capture_info \<Rightarrow> nat \<Rightarrow> nat \<Rightarrow> int" where
  "decision dithering_apply info x y =
     (if dithering info = DITHERING_NONE
      then to_1bpp info (pixel_at (buffer info) (int y * capture_stride info + int x))
      else if pixel_at (dithering_apply info) (int y * capture_width info + int x) \<noteq> 0
           then 1 else 0)"

text \<open>A payload of \<open>rows\<close> groups of \<open>n\<close> bytes each.\<close>

definition byte_grid :: "nat \<Rightarrow> nat \<Rightarrow> (nat \<Rightarrow> nat \<Rightarrow> byte) \<Rightarrow> byte list" where
  "byte_grid rows n f = concat (map (\<lambda>r. map (\<lambda>k. f r k) [0 ..< n]) [0 ..< rows])"

section \<open>A small session for concrete runs\<close>

definition example_info :: capture_info where
  "example_info =
     \<lparr>backend_name = [100, 105, 115, 112, 109, 97, 110, 120, 0, 0, 0, 0, 0, 0, 0, 0],
      display_id = 0, display_width = 16, display_height = 8,
      capture_width = 8, capture_height = 8, capture_stride = 10,
      buffer = map (\<lambda>k. if k mod 3 = 0 then 0x0821 else word_of_nat (k * 821)) [0 ..< 80],
      dithering_buffer = replicate 64 0, dithering = 0,
      mono_threshold_r5 = 3, mono_threshold_g6 = 192, mono_threshold_b5 = 6144,
      send_snapshot = 0, request_buffer_ix = 0, request_buffer = replicate 32 0\<rparr>"

text \<open>
  A dithering engine for concrete runs: a residual is non-zero where the green field of the
  pixel is above its threshold.
\<close>

definition example_dither :: dithering_engine where
  "example_dither info =
     map (\<lambda>k. if mono_threshold_g6 info
                   < pixel_at (buffer info)
                       (int (k div nat (capture_width info)) * capture_stride info
                        + int (k mod nat (capture_width info))) AND 0x07e0
               then 255 else 0)
       [0 ..< nat (capture_width info * capture_height info)]"

text \<open>A frame 8 pixels wide and 65536 pixels high, with dithering enabled.\<close>

definition tall_frame_info :: capture_info where
  "tall_frame_info =
     example_info\<lparr>capture_width := 8, capture_height := 65536, capture_stride := 8,
                  buffer := replicate 524288 0, dithering_buffer := replicate 524288 0,
                  dithering := 1\<rparr>"

text \<open>A frame of 2 by 2 pixels.\<close>

definition tiny_frame_info :: capture_info where
  "tiny_frame_info =
     example_info\<lparr>capture_width := 2, capture_height := 2, capture_stride := 2,
                  buffer := [0x0821, 0xffff, 0x07e0, 0x001f],
                  dithering_buffer := replicate 4 0\<rparr>"

text \<open>A frame of 8 by 1 pixels, and one of 2 by 5 pixels.\<close>

definition row_frame_info :: capture_info where
  "row_frame_info =
     example_info\<lparr>capture_width := 8, capture_height := 1, capture_stride := 8,
                  buffer := [0, 1, 0x0020, 0x0800, 0, 0xffff, 0, 0x0821],
                  dithering_buffer := replicate 8 0\<rparr>"

definition narrow_frame_info :: capture_info where
  "narrow_frame_info =
     example_info\<lparr>capture_width := 2, capture_height := 5, capture_stride := 2,
                  buffer := replicate 10 0x0821,
                  dithering_buffer := replicate 10 0\<rparr>"

text \<open>A frame of 32768 by 32768 pixels; only its dimensions are used.\<close>

definition huge_frame_info :: capture_info where
  "huge_frame_info =
     example_info\<lparr>capture_width := 32768, capture_height := 32768, capture_stride := 32768,
                  buffer := [], dithering_buffer := []\<rparr>"

section \<open>Thresholds and the monochrome decision\<close>

lemma uint_word16: "0 \<le> k \<Longrightarrow> k < 65536 \<Longrightarrow> uint (word_of_int k :: 16 word) = k"
  by (simp add: uint_word_of_int)

lemma uint_threshold_r5:
  "uint (mono_threshold_r5 (set_mono_threshold info t)) = uint t div 8"
proof -
  have "uint t < 256" using uint_bounded[of t] by simp
  then have b: "uint t div 8 < 65536" by simp
  have a: "0 \<le> uint t div 8" by (simp add: div_int_pos_iff)
  have "mono_threshold_r5 (set_mono_threshold info t) = word_of_int (uint t div 8)"
    by (simp add: set_mono_threshold_def drop_bit_eq_div)
  then show ?thesis using uint_word16[OF a b] by simp
qed

lemma uint_threshold_g6:
  "uint (mono_threshold_g6 (set_mono_threshold info t)) = (uint t div 4) * 32"
proof -
  have "uint t < 256" using uint_bounded[of t] by simp
  then have b: "(uint t div 4) * 32 < 65536" by simp
  have a: "0 \<le> (uint t div 4) * 32" by (simp add: div_int_pos_iff)
  have "mono_threshold_g6 (set_mono_threshold info t) = word_of_int ((uint t div 4) * 32)"
    by (simp add: set_mono_threshold_def drop_bit_eq_div push_bit_eq_mult)
  then show ?thesis using uint_word16[OF a b] by simp
qed

lemma uint_threshold_b5:
  "uint (mono_threshold_b5 (set_mono_threshold info t)) = (uint t div 8) * 2048"
proof -
  have "uint t < 256" using uint_bounded[of t] by simp
  then have b: "(uint t div 8) * 2048 < 65536" by simp
  have a: "0 \<le> (uint t div 8) * 2048" by (simp add: div_int_pos_iff)
  have "mono_threshold_b5 (set_mono_threshold info t) = word_of_int ((uint t div 8) * 2048)"
    by (simp add: set_mono_threshold_def drop_bit_eq_div push_bit_eq_mult)
  then show ?thesis using uint_word16[OF a b] by simp
qed

lemma to_1bpp_saturated: "to_1bpp (set_mono_threshold info 255) p = 0"
proof -
  have "p AND 0x1f \<le> 0x1f" by (rule word_and_le1)
  moreover have "p AND 0x7e0 \<le> 0x7e0" by (rule word_and_le1)
  moreover have "p AND 0xf800 \<le> 0xf800" by (rule word_and_le1)
  ultimately show ?thesis
    by (simp add: to_1bpp_def set_mono_threshold_def not_less)
qed

text \<open>
  Claim C3. \<open>to_1bpp\<close> returns 1 exactly when one of the three masked components of the
  pixel (masks 0x001f, 0x07e0, 0xf800, left in their packed positions) is strictly greater
  than its stored threshold, and 0 exactly when every component is at most its threshold;
  it returns nothing else.
\<close>

theorem to_1bpp_decision:
  "(to_1bpp info p = 1 \<longleftrightarrow>
      (mono_threshold_r5 info < p AND 0x001f \<or>
       mono_threshold_g6 info < p AND 0x07e0 \<or>
       mono_threshold_b5 info < p AND 0xf800)) \<and>
   (to_1bpp info p = 0 \<longleftrightarrow>
      (p AND 0x001f \<le> mono_threshold_r5 info \<and>
       p AND 0x07e0 \<le> mono_threshold_g6 info \<and>
       p AND 0xf800 \<le> mono_threshold_b5 info)) \<and>
   (to_1bpp info p = 0 \<or> to_1bpp info p = 1)"
  by (auto simp: to_1bpp_def)

theorem to_1bpp_decision_witness:
  "to_1bpp example_info 0x0004 = 1 \<and> to_1bpp example_info 0x1863 = 0 \<and>
   mono_threshold_r5 example_info < 0x0004 AND 0x001f \<and>
   0x1863 AND 0xf800 \<le> mono_threshold_b5 example_info"
  using to_1bpp_decision [of example_info "0x0004"] to_1bpp_decision [of example_info "0x1863"]
  by (simp add: example_info_def)

text \<open>
  Claim C5. For a fixed pixel and 8-bit threshold inputs \<open>t1 \<le> t2\<close>, a pixel that is off
  after \<open>set_mono_threshold\<close> with \<open>t1\<close> is off after \<open>set_mono_threshold\<close> with \<open>t2\<close>.
\<close>

theorem threshold_monotone:
  assumes le: "t1 \<le> t2"
    and off: "to_1bpp (set_mono_threshold info t1) p = 0"
  shows "to_1bpp (set_mono_threshold info t2) p = 0"
proof -
  from le have u: "uint t1 \<le> uint t2" by (simp add: word_le_def)
  have r: "mono_threshold_r5 (set_mono_threshold info t1)
             \<le> mono_threshold_r5 (set_mono_threshold info t2)"
    unfolding word_le_def uint_threshold_r5 using u by (simp add: zdiv_mono1)
  have g: "mono_threshold_g6 (set_mono_threshold info t1)
             \<le> mono_threshold_g6 (set_mono_threshold info t2)"
    unfolding word_le_def uint_threshold_g6 using u by (simp add: zdiv_mono1)
  have b: "mono_threshold_b5 (set_mono_threshold info t1)
             \<le> mono_threshold_b5 (set_mono_threshold info t2)"
    unfolding word_le_def uint_threshold_b5 using u by (simp add: zdiv_mono1)
  from off have "\<not> mono_threshold_r5 (set_mono_threshold info t1) < p AND 0x001f"
    "\<not> mono_threshold_g6 (set_mono_threshold info t1) < p AND 0x07e0"
    "\<not> mono_threshold_b5 (set_mono_threshold info t1) < p AND 0xf800"
    by (auto simp: to_1bpp_def split: if_splits)
  with r g b show ?thesis
    by (auto simp: to_1bpp_def)
qed

theorem threshold_monotone_witness:
  "(25 :: byte) \<le> 100 \<and> to_1bpp (set_mono_threshold example_info 25) 0x1863 = 0 \<and>
   to_1bpp (set_mono_threshold example_info 100) 0x1863 = 0"
proof -
  have le: "(25 :: byte) \<le> 100" by simp
  have off: "to_1bpp (set_mono_threshold example_info 25) 0x1863 = 0"
    by (simp add: to_1bpp_def set_mono_threshold_def)
  show ?thesis using le off threshold_monotone [OF le off] by simp
qed

section \<open>The parser on well-formed frames\<close>

lemma set_mono_threshold_parser [simp]:
  "request_buffer (set_mono_threshold info t) = request_buffer info"
  "request_buffer_ix (set_mono_threshold info t) = request_buffer_ix info"
  by (simp_all add: set_mono_threshold_def)

lemma set_dithering_parser [simp]:
  "request_buffer (set_dithering info t) = request_buffer info"
  "request_buffer_ix (set_dithering info t) = request_buffer_ix info"
  by (simp_all add: set_dithering_def)

lemma apply_frame_parser [simp]:
  "request_buffer (apply_frame info f) = request_buffer info"
  "request_buffer_ix (apply_frame info f) = request_buffer_ix info"
  by (cases f; simp)+

lemma session_of_apply_frame:
  "session_of (apply_frame info f) = apply_frame (session_of info) f"
  by (cases f) (simp add: session_of_def set_mono_threshold_def set_dithering_def)

lemma session_of_update [simp]:
  "session_of (info\<lparr>request_buffer_ix := i\<rparr>) = session_of info"
  "session_of (info\<lparr>request_buffer := b\<rparr>) = session_of info"
  by (simp_all add: session_of_def)

lemma session_of_foldl:
  "session_of a = session_of b \<Longrightarrow>
   session_of (foldl apply_frame a fs) = session_of (foldl apply_frame b fs)"
  by (induction fs arbitrary: a b) (simp_all add: session_of_apply_frame)

lemma length_encode_frame [simp]: "length (encode_frame f) = 5 + length (snd f)"
  by (cases f) simp

lemma unat_frame_len:
  "n \<le> 250 \<Longrightarrow> unat (4 + of_nat (Suc n) :: byte) = 5 + n"
  by (simp add: unat_word_ariths unat_of_nat)

lemma command_loop_stop:
  "request_buffer_ix info < 5 \<Longrightarrow> command_loop info = Some (Inr info)"
  by (subst command_loop.simps) simp

lemma command_loop_wait:
  assumes "5 \<le> request_buffer_ix info"
    "request_buffer info ! 0 = 0" "request_buffer info ! 1 = 0" "request_buffer info ! 2 = 0"
    "request_buffer_ix info < unat (4 + request_buffer info ! 3)"
  shows "command_loop info = Some (Inr info)"
  using assms by (subst command_loop.simps) (simp add: Let_def)

lemma command_loop_step:
  assumes "5 \<le> request_buffer_ix info"
    "request_buffer info ! 0 = 0" "request_buffer info ! 1 = 0" "request_buffer info ! 2 = 0"
    "unat (4 + request_buffer info ! 3) \<le> request_buffer_ix info"
  shows "command_loop info =
     command_loop (consume_command (dispatch_command info) (4 + request_buffer info ! 3))"
  using assms by (subst command_loop.simps) (simp add: Let_def)


lemma pending_nth:
  assumes "pending info = xs @ ys" "i < length xs"
  shows "request_buffer info ! i = xs ! i"
proof -
  have "length (pending info) = length xs + length ys" using assms(1) by simp
  then have "i < request_buffer_ix info" using assms(2) by (simp add: pending_def)
  then have "request_buffer info ! i = pending info ! i" by (simp add: pending_def)
  then show ?thesis using assms by (simp add: nth_append)
qed

lemma pending_length:
  assumes "pending info = xs" "request_buffer_ix info \<le> length (request_buffer info)"
  shows "request_buffer_ix info = length xs"
  using assms by (auto simp: pending_def)

lemma dispatch_frame:
  assumes wf: "wf_frame f" and p: "pending info = encode_frame f @ rest"
  shows "dispatch_command info = apply_frame info f"
proof -
  obtain c args where f: "f = (c, args)" by (cases f)
  have n4: "request_buffer info ! 4 = c"
    using pending_nth[OF p, of 4] by (simp add: f)
  have n5: "request_buffer info ! 5 = hd args" if "args \<noteq> []"
  proof -
    from that obtain a as where "args = a # as" by (cases args) auto
    then show ?thesis using pending_nth[OF p, of 5] by (simp add: f)
  qed
  show ?thesis
    using wf n4 n5 by (auto simp: dispatch_command_def f Let_def)
qed

lemma consume_frame:
  assumes p: "pending info = xs @ rest"
    and ix: "request_buffer_ix info \<le> length (request_buffer info)"
    and len: "unat len = length xs"
  shows "pending (consume_command info len) = rest"
    and "request_buffer_ix (consume_command info len) = length rest"
    and "length (request_buffer (consume_command info len)) = length (request_buffer info)"
    and "session_of (consume_command info len) = session_of info"
proof -
  have ixe: "request_buffer_ix info = length xs + length rest"
    using pending_length[OF p ix] by simp
  show "request_buffer_ix (consume_command info len) = length rest"
    by (simp add: consume_command_def Let_def ixe len)
  show "length (request_buffer (consume_command info len)) = length (request_buffer info)"
    using ix by (simp add: consume_command_def Let_def ixe len memmove_front_def)
  show "session_of (consume_command info len) = session_of info"
    by (simp add: consume_command_def Let_def)
  have "take (length rest) (drop (length xs) (request_buffer info)) = rest"
  proof -
    have "take (length rest) (drop (length xs) (request_buffer info))
        = drop (length xs) (take (length xs + length rest) (request_buffer info))"
      by (simp add: drop_take add.commute)
    also have "\<dots> = drop (length xs) (pending info)" by (simp add: pending_def ixe)
    also have "\<dots> = rest" by (simp add: p)
    finally show ?thesis .
  qed
  then show "pending (consume_command info len) = rest"
    using ix by (cases "rest = []")
      (simp_all add: pending_def consume_command_def Let_def ixe len memmove_front_def)
qed

lemma frame_step:
  assumes wf: "wf_frame f" and p: "pending info = encode_frame f @ rest"
    and ix: "request_buffer_ix info \<le> length (request_buffer info)"
  shows "\<exists>info'. command_loop info = command_loop info' \<and>
           pending info' = rest \<and> request_buffer_ix info' = length rest \<and>
           length (request_buffer info') = length (request_buffer info) \<and>
           session_of info' = session_of (apply_frame info f)"
proof -
  obtain c args where f: "f = (c, args)" by (cases f)
  have a250: "length args \<le> 250" using wf by (simp add: f)
  have ixe: "request_buffer_ix info = 5 + length args + length rest"
    using pending_length[OF p ix] by (simp add: f)
  have h: "request_buffer info ! 0 = 0" "request_buffer info ! 1 = 0" "request_buffer info ! 2 = 0"
    "request_buffer info ! 3 = of_nat (Suc (length args))"
    using pending_nth[OF p, of 0] pending_nth[OF p, of 1] pending_nth[OF p, of 2]
      pending_nth[OF p, of 3] by (simp_all add: f)
  have len: "unat (4 + request_buffer info ! 3) = length (encode_frame f)"
    using unat_frame_len[OF a250] by (simp add: h f)
  let ?d = "dispatch_command info"
  let ?n = "consume_command ?d (4 + request_buffer info ! 3)"
  have d: "?d = apply_frame info f" by (rule dispatch_frame[OF wf p])
  have pd: "pending ?d = encode_frame f @ rest" by (simp add: d pending_def) (simp add: p[unfolded pending_def])
  have ixd: "request_buffer_ix ?d \<le> length (request_buffer ?d)" using ix by (simp add: d)
  have "command_loop info = command_loop ?n"
    by (rule command_loop_step) (use h len ixe in \<open>simp_all add: f\<close>)
  moreover have "pending ?n = rest" by (rule consume_frame(1)[OF pd ixd len])
  moreover have "request_buffer_ix ?n = length rest" by (rule consume_frame(2)[OF pd ixd len])
  moreover have "length (request_buffer ?n) = length (request_buffer info)"
    using consume_frame(3)[OF pd ixd len] by (simp add: d)
  moreover have "session_of ?n = session_of (apply_frame info f)"
    using consume_frame(4)[OF pd ixd len] by (simp add: d)
  ultimately show ?thesis by blast
qed


lemma partial_stop:
  assumes wf: "wf_frame f" and k: "k < length (encode_frame f)"
    and p: "pending info = take k (encode_frame f)"
    and ix: "request_buffer_ix info \<le> length (request_buffer info)"
  shows "command_loop info = Some (Inr info)"
proof (cases "k < 5")
  case True
  have "request_buffer_ix info = k" using pending_length[OF p ix] k by simp
  then show ?thesis using True by (simp add: command_loop_stop)
next
  case False
  obtain c args where f: "f = (c, args)" by (cases f)
  have a250: "length args \<le> 250" using wf by (simp add: f)
  have ixe: "request_buffer_ix info = k" using pending_length[OF p ix] k by simp
  have p': "pending info = take k (encode_frame f) @ []" using p by simp
  have lk: "length (take k (encode_frame f)) = k" using k by simp
  have nth: "request_buffer info ! i = encode_frame f ! i" if "i < 5" for i
    using pending_nth[OF p', of i] that False lk by simp
  have h: "request_buffer info ! 0 = 0" "request_buffer info ! 1 = 0" "request_buffer info ! 2 = 0"
    "request_buffer info ! 3 = of_nat (Suc (length args))"
    using nth[of 0] nth[of 1] nth[of 2] nth[of 3] by (simp_all add: f)
  have len: "unat (4 + request_buffer info ! 3) = length (encode_frame f)"
    using unat_frame_len[OF a250] by (simp add: h f)
  show ?thesis
    by (rule command_loop_wait) (use h len ixe k False in simp_all)
qed

lemma frames_loop:
  assumes "\<forall>f \<in> set fs. wf_frame f" and "wf_frame g" and "k < length (encode_frame g)"
    and "pending info = concat (map encode_frame fs) @ take k (encode_frame g)"
    and "request_buffer_ix info \<le> length (request_buffer info)"
  shows "\<exists>info'. command_loop info = Some (Inr info') \<and>
           pending info' = take k (encode_frame g) \<and> request_buffer_ix info' = k \<and>
           length (request_buffer info') = length (request_buffer info) \<and>
           session_of info' = session_of (foldl apply_frame info fs)"
  using assms
proof (induction fs arbitrary: info)
  case Nil
  then have "command_loop info = Some (Inr info)"
    by (intro partial_stop[of g k]) simp_all
  moreover have "request_buffer_ix info = k"
    using pending_length[OF _ Nil.prems(5), of "take k (encode_frame g)"] Nil.prems by simp
  ultimately show ?case using Nil.prems by simp
next
  case (Cons f fs)
  let ?rest = "concat (map encode_frame fs) @ take k (encode_frame g)"
  have wf: "wf_frame f" using Cons.prems by simp
  have p: "pending info = encode_frame f @ ?rest" using Cons.prems by simp
  from frame_step[OF wf p Cons.prems(5)] obtain i1 where
    i1: "command_loop info = command_loop i1" "pending i1 = ?rest"
      "request_buffer_ix i1 = length ?rest"
      "length (request_buffer i1) = length (request_buffer info)"
      "session_of i1 = session_of (apply_frame info f)"
    by blast
  have ix1: "request_buffer_ix i1 \<le> length (request_buffer i1)"
  proof -
    have "length (pending i1) \<le> length (request_buffer i1)" by (simp add: pending_def)
    then show ?thesis using i1(2,3) by simp
  qed
  from Cons.IH[of i1] Cons.prems i1(2) ix1 obtain i2 where
    i2: "command_loop i1 = Some (Inr i2)" "pending i2 = take k (encode_frame g)"
      "request_buffer_ix i2 = k" "length (request_buffer i2) = length (request_buffer i1)"
      "session_of i2 = session_of (foldl apply_frame i1 fs)"
    by auto
  have "session_of (foldl apply_frame i1 fs) = session_of (foldl apply_frame (apply_frame info f) fs)"
    by (rule session_of_foldl[OF i1(5)])
  then show ?case using i1 i2 by simp
qed


lemma handle_stdin_read:
  assumes d: "d \<noteq> []"
    and fit: "request_buffer_ix info + length d \<le> length (request_buffer info)"
  shows "\<exists>info1. handle_stdin info (Read_bytes d) = command_loop info1 \<and>
           pending info1 = pending info @ d \<and>
           request_buffer_ix info1 \<le> length (request_buffer info1) \<and>
           length (request_buffer info1) = length (request_buffer info) \<and>
           session_of info1 = session_of info"
proof -
  let ?i = "info\<lparr>request_buffer := store_at (request_buffer info) (request_buffer_ix info) d,
                   request_buffer_ix := request_buffer_ix info + length d\<rparr>"
  have "handle_stdin info (Read_bytes d) = command_loop ?i"
    using d by (simp add: handle_stdin_def)
  moreover have "pending ?i = pending info @ d"
    using fit by (simp add: pending_def store_at_def)
  moreover have "length (request_buffer ?i) = length (request_buffer info)"
    using fit by (simp add: store_at_def)
  moreover have "request_buffer_ix ?i \<le> length (request_buffer ?i)"
    using fit by (simp add: store_at_def)
  moreover have "session_of ?i = session_of info" by simp
  ultimately show ?thesis by blast
qed

lemma split_stream:
  assumes "x @ rest = concat (map encode_frame fs) @ take k (encode_frame g)"
    and "\<forall>f \<in> set fs. wf_frame f" and "wf_frame g" and "k < length (encode_frame g)"
  shows "\<exists>fs1 fs2 g1 k1. fs = fs1 @ fs2 \<and> wf_frame g1 \<and> k1 < length (encode_frame g1) \<and>
           x = concat (map encode_frame fs1) @ take k1 (encode_frame g1) \<and>
           take k1 (encode_frame g1) @ rest = concat (map encode_frame fs2) @ take k (encode_frame g)"
  using assms
proof (induction fs arbitrary: x)
  case Nil
  then have e: "x @ rest = take k (encode_frame g)" by simp
  then have "length x \<le> k" by (metis length_append le_add1 length_take min.cobounded2 order_trans)
  moreover from e have "x = take (length x) (take k (encode_frame g))"
    by (metis append_eq_conv_conj)
  ultimately have x: "x = take (length x) (encode_frame g)" by (simp add: min_def)
  have "length x < length (encode_frame g)" using \<open>length x \<le> k\<close> Nil.prems(4) by simp
  with x e Nil.prems(3) show ?case
    by (rule_tac x = "[]" in exI, rule_tac x = "[]" in exI,
        rule_tac x = g in exI, rule_tac x = "length x" in exI) auto
next
  case (Cons f fs)
  let ?R = "concat (map encode_frame fs) @ take k (encode_frame g)"
  have e: "x @ rest = encode_frame f @ ?R" using Cons.prems(1) by simp
  show ?case
  proof (cases "length x < length (encode_frame f)")
    case True
    from e have "x = take (length x) (encode_frame f @ ?R)" by (metis append_eq_conv_conj)
    then have x: "x = take (length x) (encode_frame f)" using True by simp
    have wf: "wf_frame f" using Cons.prems(2) by simp
    show ?thesis
      apply (rule exI[of _ "[]"], rule exI[of _ "f # fs"], rule exI[of _ f], rule exI[of _ "length x"])
      using x e wf True by auto
  next
    case False
    let ?n = "length (encode_frame f)"
    have n: "?n \<le> length x" using False by simp
    have "take ?n (x @ rest) = encode_frame f" "drop ?n (x @ rest) = ?R"
      unfolding e by simp_all
    then have tk: "take ?n x = encode_frame f" and dr: "drop ?n x @ rest = ?R"
      using n by simp_all
    have "x = encode_frame f @ drop ?n x"
      using tk append_take_drop_id[of ?n x] by simp
    with dr obtain x' where x': "x = encode_frame f @ x'" "x' @ rest = ?R"
      by blast
    have wfs: "\<forall>f \<in> set fs. wf_frame f" using Cons.prems(2) by simp
    from Cons.IH[OF x'(2) wfs Cons.prems(3) Cons.prems(4)] obtain fs1 fs2 g1 k1 where
      "fs = fs1 @ fs2" "wf_frame g1" "k1 < length (encode_frame g1)"
      "x' = concat (map encode_frame fs1) @ take k1 (encode_frame g1)"
      "take k1 (encode_frame g1) @ rest = concat (map encode_frame fs2) @ take k (encode_frame g)"
      by blast
    then show ?thesis
      apply (rule_tac x = "f # fs1" in exI, rule_tac x = fs2 in exI,
          rule_tac x = g1 in exI, rule_tac x = k1 in exI)
      using x'(1) by simp
  qed
qed


lemma pending_le_buffer: "length (pending info) \<le> request_buffer_ix info"
  by (simp add: pending_def)

lemma deliver_chunks:
  assumes "chunks \<noteq> []" and "\<forall>c \<in> set chunks. c \<noteq> []"
    and "\<forall>f \<in> set fs. wf_frame f" and "wf_frame g" and "k < length (encode_frame g)"
    and "pending info @ concat chunks = concat (map encode_frame fs) @ take k (encode_frame g)"
    and "request_buffer_ix info \<le> length (request_buffer info)"
    and "request_buffer_ix info + length (concat chunks) \<le> length (request_buffer info)"
  shows "\<exists>info'. deliver info chunks = Some (Inr info') \<and>
           pending info' = take k (encode_frame g) \<and> request_buffer_ix info' = k \<and>
           length (request_buffer info') = length (request_buffer info) \<and>
           session_of info' = session_of (foldl apply_frame info fs)"
  using assms
proof (induction chunks arbitrary: info fs rule: list_nonempty_induct)
  case (single c)
  have c: "c \<noteq> []" using single.prems(1) by simp
  have fit: "request_buffer_ix info + length c \<le> length (request_buffer info)"
    using single.prems(7) by simp
  from handle_stdin_read[OF c fit] obtain i1 where
    i1: "handle_stdin info (Read_bytes c) = command_loop i1" "pending i1 = pending info @ c"
      "request_buffer_ix i1 \<le> length (request_buffer i1)"
      "length (request_buffer i1) = length (request_buffer info)"
      "session_of i1 = session_of info"
    by blast
  have p1: "pending i1 = concat (map encode_frame fs) @ take k (encode_frame g)"
    using i1(2) single.prems(5) by simp
  from frames_loop[OF single.prems(2) single.prems(3) single.prems(4) p1 i1(3)] obtain i2 where
    i2: "command_loop i1 = Some (Inr i2)" "pending i2 = take k (encode_frame g)"
      "request_buffer_ix i2 = k" "length (request_buffer i2) = length (request_buffer i1)"
      "session_of i2 = session_of (foldl apply_frame i1 fs)"
    by blast
  have "session_of i2 = session_of (foldl apply_frame info fs)"
    using i2(5) session_of_foldl[OF i1(5), of fs] by simp
  then show ?case using i1 i2 by simp
next
  case (cons c cs)
  have c: "c \<noteq> []" using cons.prems(1) by simp
  have fit: "request_buffer_ix info + length c \<le> length (request_buffer info)"
    using cons.prems(7) by simp
  from handle_stdin_read[OF c fit] obtain i1 where
    i1: "handle_stdin info (Read_bytes c) = command_loop i1" "pending i1 = pending info @ c"
      "request_buffer_ix i1 \<le> length (request_buffer i1)"
      "length (request_buffer i1) = length (request_buffer info)"
      "session_of i1 = session_of info"
    by blast
  have e: "pending i1 @ concat cs = concat (map encode_frame fs) @ take k (encode_frame g)"
    using i1(2) cons.prems(5) by simp
  from split_stream[OF e cons.prems(2) cons.prems(3) cons.prems(4)] obtain fs1 fs2 g1 k1 where
    sp: "fs = fs1 @ fs2" "wf_frame g1" "k1 < length (encode_frame g1)"
      "pending i1 = concat (map encode_frame fs1) @ take k1 (encode_frame g1)"
      "take k1 (encode_frame g1) @ concat cs
         = concat (map encode_frame fs2) @ take k (encode_frame g)"
    by blast
  have wf1: "\<forall>f \<in> set fs1. wf_frame f" and wf2: "\<forall>f \<in> set fs2. wf_frame f"
    using cons.prems(2) sp(1) by auto
  from frames_loop[OF wf1 sp(2) sp(3) sp(4) i1(3)] obtain i2 where
    i2: "command_loop i1 = Some (Inr i2)" "pending i2 = take k1 (encode_frame g1)"
      "request_buffer_ix i2 = k1" "length (request_buffer i2) = length (request_buffer i1)"
      "session_of i2 = session_of (foldl apply_frame i1 fs1)"
    by blast
  have s2: "session_of i2 = session_of (foldl apply_frame info fs1)"
    using i2(5) session_of_foldl[OF i1(5), of fs1] by simp
  have k1le: "k1 \<le> request_buffer_ix info + length c"
  proof -
    have "length (pending i1) = length (concat (map encode_frame fs1)) + k1"
      using sp(3,4) by simp
    moreover have "length (pending i1) \<le> request_buffer_ix info + length c"
      using i1(2) pending_le_buffer[of info] by simp
    ultimately show ?thesis by simp
  qed
  have p2: "pending i2 @ concat cs = concat (map encode_frame fs2) @ take k (encode_frame g)"
    using i2(2) sp(5) by simp
  have ix2: "request_buffer_ix i2 \<le> length (request_buffer i2)"
    using i2(3,4) i1(4) k1le fit by simp
  have fit2: "request_buffer_ix i2 + length (concat cs) \<le> length (request_buffer i2)"
    using i2(3,4) i1(4) k1le cons.prems(7) by simp
  have ne: "\<forall>c \<in> set cs. c \<noteq> []" using cons.prems(1) by simp
  from cons.IH[OF ne wf2 cons.prems(3) cons.prems(4) p2 ix2 fit2] obtain i3 where
    i3: "deliver i2 cs = Some (Inr i3)" "pending i3 = take k (encode_frame g)"
      "request_buffer_ix i3 = k" "length (request_buffer i3) = length (request_buffer i2)"
      "session_of i3 = session_of (foldl apply_frame i2 fs2)"
    by blast
  have "session_of i3 = session_of (foldl apply_frame info fs)"
    using i3(5) session_of_foldl[OF s2, of fs2] by (simp add: sp(1))
  moreover have "deliver info (c # cs) = Some (Inr i3)"
    using i1(1) i2(1) i3(1) by simp
  ultimately show ?case using i3 i2(4) i1(4) by simp
qed

text \<open>
  Claim C1. Let a byte sequence consist of well-formed command frames followed by a proper
  prefix of a well-formed frame, and let it fit the inbound buffer, which is empty at the
  start. Cut it into non-empty pieces at any byte boundaries. Delivering the pieces to
  \<open>handle_stdin\<close> in successive calls and delivering the whole sequence in one call both
  return, with the same session: the one obtained by applying the commands of the frames
  in order (pending encoding request, thresholds, dithering mode; no other field changes).
  In both cases the trailing partial frame is left at the start of the inbound buffer and
  \<open>request_buffer_ix\<close> is its length.
\<close>

theorem handle_stdin_chunking:
  assumes frames: "\<forall>f \<in> set fs. wf_frame f" and tail: "wf_frame g" "k < length (encode_frame g)"
    and stream: "concat chunks = concat (map encode_frame fs) @ take k (encode_frame g)"
    and pieces: "chunks \<noteq> []" "\<forall>c \<in> set chunks. c \<noteq> []"
    and empty: "request_buffer_ix info = 0"
    and fits: "length (concat chunks) < length (request_buffer info)"
  shows "\<exists>whole split.
           deliver info [concat chunks] = Some (Inr whole) \<and>
           deliver info chunks = Some (Inr split) \<and>
           session_of split = session_of whole \<and>
           session_of whole = session_of (foldl apply_frame info fs) \<and>
           request_buffer_ix split = k \<and> request_buffer_ix whole = k \<and>
           take k (request_buffer split) = take k (encode_frame g) \<and>
           take k (request_buffer whole) = take k (encode_frame g)"
proof -
  have p0: "pending info = []" by (simp add: pending_def empty)
  have ne: "concat chunks \<noteq> []" using pieces by (cases chunks) auto
  have ix: "request_buffer_ix info \<le> length (request_buffer info)" by (simp add: empty)
  have fit: "request_buffer_ix info + length (concat chunks) \<le> length (request_buffer info)"
    using fits by (simp add: empty)
  have "\<exists>info'. deliver info [concat chunks] = Some (Inr info') \<and>
           pending info' = take k (encode_frame g) \<and> request_buffer_ix info' = k \<and>
           length (request_buffer info') = length (request_buffer info) \<and>
           session_of info' = session_of (foldl apply_frame info fs)"
    by (rule deliver_chunks[OF _ _ frames tail]) (use p0 ne ix fit stream in simp_all)
  then obtain whole where
    w: "deliver info [concat chunks] = Some (Inr whole)" "pending whole = take k (encode_frame g)"
      "request_buffer_ix whole = k" "session_of whole = session_of (foldl apply_frame info fs)"
    by blast
  have "\<exists>info'. deliver info chunks = Some (Inr info') \<and>
           pending info' = take k (encode_frame g) \<and> request_buffer_ix info' = k \<and>
           length (request_buffer info') = length (request_buffer info) \<and>
           session_of info' = session_of (foldl apply_frame info fs)"
    by (rule deliver_chunks[OF pieces frames tail]) (use p0 ix fit stream in simp_all)
  then obtain split where
    s: "deliver info chunks = Some (Inr split)" "pending split = take k (encode_frame g)"
      "request_buffer_ix split = k" "session_of split = session_of (foldl apply_frame info fs)"
    by blast
  from w s show ?thesis by (auto simp: pending_def)
qed

theorem handle_stdin_chunking_witness:
  "\<exists>whole split.
     deliver example_info [concat [[0, 0, 0], [2, 6, 255, 0, 0, 0, 1], [3, 0, 0, 0, 2, 7]]]
       = Some (Inr whole) \<and>
     deliver example_info [[0, 0, 0], [2, 6, 255, 0, 0, 0, 1], [3, 0, 0, 0, 2, 7]]
       = Some (Inr split) \<and>
     session_of split = session_of whole \<and>
     session_of whole = session_of (foldl apply_frame example_info [(6, [255]), (3, [])]) \<and>
     request_buffer_ix split = 5 \<and> request_buffer_ix whole = 5 \<and>
     take 5 (request_buffer split) = take 5 (encode_frame (7, [1])) \<and>
     take 5 (request_buffer whole) = take 5 (encode_frame (7, [1]))"
proof -
  have frames: "\<forall>f \<in> set [(6, [255]), (3, [])]. wf_frame f" by simp
  have tail: "wf_frame (7, [1])" "5 < length (encode_frame (7, [1]))" by simp_all
  have stream: "concat [[0, 0, 0], [2, 6, 255, 0, 0, 0, 1], [3, 0, 0, 0, 2, 7]]
      = concat (map encode_frame [(6, [255]), (3, [])]) @ take 5 (encode_frame (7, [1]))"
    by simp
  have pieces: "[[0, 0, 0], [2, 6, 255, 0, 0, 0, 1], [3, 0, 0, 0, 2, 7 :: byte]] \<noteq> []"
    "\<forall>c \<in> set [[0, 0, 0], [2, 6, 255, 0, 0, 0, 1], [3, 0, 0, 0, 2, 7 :: byte]]. c \<noteq> []"
    by simp_all
  have empty: "request_buffer_ix example_info = 0" by (simp add: example_info_def)
  have fits: "length (concat [[0, 0, 0], [2, 6, 255, 0, 0, 0, 1], [3, 0, 0, 0, 2, 7 :: byte]])
      < length (request_buffer example_info)"
    by (simp add: example_info_def)
  show ?thesis
    by (rule handle_stdin_chunking [OF frames tail stream pieces empty fits])
qed

section \<open>The threshold command\<close>

lemma threshold_words:
  "mono_threshold_r5 (set_mono_threshold info t) = drop_bit 3 (ucast t)"
  "mono_threshold_g6 (set_mono_threshold info t) = push_bit 5 (drop_bit 2 (ucast t))"
  "mono_threshold_b5 (set_mono_threshold info t) = push_bit 11 (drop_bit 3 (ucast t))"
  unfolding set_mono_threshold_def
    apply simp_all
    apply (rule bit_word_eqI; auto simp: bit_simps dest: bit_imp_le_length)+
  done

lemma session_of_thresholds:
  assumes "session_of a = session_of b"
  shows "mono_threshold_r5 a = mono_threshold_r5 b" "mono_threshold_g6 a = mono_threshold_g6 b"
    "mono_threshold_b5 a = mono_threshold_b5 b" "dithering a = dithering b"
    "send_snapshot a = send_snapshot b"
proof -
  have "mono_threshold_r5 (session_of a) = mono_threshold_r5 (session_of b)"
    "mono_threshold_g6 (session_of a) = mono_threshold_g6 (session_of b)"
    "mono_threshold_b5 (session_of a) = mono_threshold_b5 (session_of b)"
    "dithering (session_of a) = dithering (session_of b)"
    "send_snapshot (session_of a) = send_snapshot (session_of b)"
    using assms by simp_all
  then show "mono_threshold_r5 a = mono_threshold_r5 b" "mono_threshold_g6 a = mono_threshold_g6 b"
    "mono_threshold_b5 a = mono_threshold_b5 b" "dithering a = dithering b"
    "send_snapshot a = send_snapshot b"
    by (simp_all add: session_of_def)
qed

lemma to_1bpp_session:
  "session_of a = session_of b \<Longrightarrow> to_1bpp a p = to_1bpp b p"
  using session_of_thresholds[of a b] by (simp add: to_1bpp_def)

text \<open>
  Claim C4. The frame \<open>00 00 00 02 06 t\<close> (command code 6 with argument byte \<open>t\<close>) sets
  the stored thresholds to \<open>t >> 3\<close>, \<open>(t >> 2) << 5\<close> and \<open>(t >> 3) << 11\<close> and changes
  nothing else of the session. With \<open>t = 255\<close> they are \<open>0x001f\<close>, \<open>0x07e0\<close> and
  \<open>0xf800\<close>, the largest values of their bit fields, and no pixel is on.
\<close>

theorem threshold_command:
  assumes empty: "request_buffer_ix info = 0"
    and room: "6 < length (request_buffer info)"
  shows "\<exists>info'. handle_stdin info (Read_bytes [0, 0, 0, 2, 6, t]) = Some (Inr info') \<and>
           session_of info' = session_of (set_mono_threshold info t) \<and>
           mono_threshold_r5 info' = drop_bit 3 (ucast t) \<and>
           mono_threshold_g6 info' = push_bit 5 (drop_bit 2 (ucast t)) \<and>
           mono_threshold_b5 info' = push_bit 11 (drop_bit 3 (ucast t)) \<and>
           (t = 255 \<longrightarrow> mono_threshold_r5 info' = 0x001f \<and> mono_threshold_g6 info' = 0x07e0 \<and>
              mono_threshold_b5 info' = 0xf800 \<and> (\<forall>p. to_1bpp info' p = 0))"
proof -
  have "\<exists>info'. deliver info [[0, 0, 0, 2, 6, t]] = Some (Inr info') \<and>
           pending info' = take 0 (encode_frame (0, [])) \<and> request_buffer_ix info' = 0 \<and>
           length (request_buffer info') = length (request_buffer info) \<and>
           session_of info' = session_of (foldl apply_frame info [(6, [t])])"
    by (rule deliver_chunks) (use empty room in \<open>simp_all add: pending_def\<close>)
  then obtain info' where
    d: "deliver info [[0, 0, 0, 2, 6, t]] = Some (Inr info')"
    and s: "session_of info' = session_of (set_mono_threshold info t)"
    by auto
  have h: "handle_stdin info (Read_bytes [0, 0, 0, 2, 6, t]) = Some (Inr info')"
    using d by (simp split: option.splits sum.splits)
  note th = session_of_thresholds(1-3)[OF s]
  have sat: "to_1bpp info' p = 0" if "t = 255" for p
    using to_1bpp_session[OF s, of p] that by (simp add: to_1bpp_saturated)
  have "t = 255 \<Longrightarrow> mono_threshold_r5 info' = 0x001f \<and> mono_threshold_g6 info' = 0x07e0 \<and>
              mono_threshold_b5 info' = 0xf800"
    using th by (simp add: set_mono_threshold_def)
  with h s th sat show ?thesis by (auto simp: threshold_words)
qed

theorem threshold_command_witness:
  "\<exists>info'. handle_stdin example_info (Read_bytes [0, 0, 0, 2, 6, 255]) = Some (Inr info') \<and>
      mono_threshold_r5 info' = 0x001f \<and> mono_threshold_g6 info' = 0x07e0 \<and>
      mono_threshold_b5 info' = 0xf800 \<and> (\<forall>p. to_1bpp info' p = 0)"
proof -
  have empty: "request_buffer_ix example_info = 0" by (simp add: example_info_def)
  have room: "6 < length (request_buffer example_info)" by (simp add: example_info_def)
  show ?thesis using threshold_command [OF empty room, of 255] by auto
qed

section \<open>Fixed offsets in the parser\<close>

lemma command_loop_fatal:
  assumes "5 \<le> request_buffer_ix info"
    "request_buffer info ! 0 \<noteq> 0 \<or> request_buffer info ! 1 \<noteq> 0 \<or> request_buffer info ! 2 \<noteq> 0"
  shows "command_loop info = Some (Inl EXIT_FAILURE)"
  using assms by (subst command_loop.simps) simp

text \<open>
  Claim C9. Whatever length byte \<open>L\<close> a frame declares, the parser takes the command code
  from offset 4 of the inbound buffer and the argument from offset 5, and then drops
  \<open>4 + L\<close> bytes (modulo 256). The result of the parsing loop is given for the three shapes
  of the bytes \<open>rem\<close> that stay behind: fewer than five bytes (the loop returns, with the
  fields set from offsets 4 and 5: \<^verbatim>\<open>send_snapshot\<close> is the byte at offset 4 for the codes 1
  to 5, the thresholds are those of the byte at offset 5 for code 6, \<^verbatim>\<open>dithering\<close> is the
  byte at offset 5 for code 7), five bytes or more with a nonzero prefix (the process exits
  with a failure), and a sequence of well-formed frames followed by a prefix of one (the loop
  returns the state that these frames produce from the effect of the first dispatch). So a
  frame with \<open>L = 0\<close> loses its four header bytes while the dispatch is on the byte after
  them, which stays in the buffer as the start of the next frame; and a frame with
  \<open>L = 1\<close> and code 6 or 7 takes its argument from the byte after the frame, which stays in
  the buffer as well.
\<close>

theorem fixed_offset_reads:
  assumes p: "pending info = [0, 0, 0, L] @ cmd # rest"
    and ix: "request_buffer_ix info \<le> length (request_buffer info)"
    and complete: "unat (4 + L) \<le> 5 + length rest"
    and rem: "rem = drop (unat (4 + L)) ([0, 0, 0, L] @ cmd # rest)"
    and eff: "eff = apply_frame info (cmd, [request_buffer info ! 5])"
  shows "(rest \<noteq> [] \<longrightarrow> request_buffer info ! 5 = hd rest) \<and>
         (L = 0 \<longrightarrow> rem = cmd # rest) \<and>
         (L = 1 \<longrightarrow> rem = rest) \<and>
         (length rem < 5 \<longrightarrow>
            (\<exists>info'. command_loop info = Some (Inr info') \<and>
               session_of info' = session_of eff \<and>
               pending info' = rem \<and> request_buffer_ix info' = length rem \<and>
               (cmd = 1 \<or> cmd = 2 \<or> cmd = 3 \<or> cmd = 4 \<or> cmd = 5 \<longrightarrow>
                  send_snapshot info' = uint cmd) \<and>
               (cmd = 6 \<longrightarrow>
                  mono_threshold_r5 info' = drop_bit 3 (ucast (request_buffer info ! 5)) \<and>
                  mono_threshold_g6 info' = push_bit 5 (drop_bit 2 (ucast (request_buffer info ! 5))) \<and>
                  mono_threshold_b5 info' = push_bit 11 (drop_bit 3 (ucast (request_buffer info ! 5)))) \<and>
               (cmd = 7 \<longrightarrow> dithering info' = request_buffer info ! 5))) \<and>
         (5 \<le> length rem \<and> (rem ! 0 \<noteq> 0 \<or> rem ! 1 \<noteq> 0 \<or> rem ! 2 \<noteq> 0) \<longrightarrow>
            command_loop info = Some (Inl EXIT_FAILURE)) \<and>
         (\<forall>fs g k. (\<forall>f \<in> set fs. wf_frame f) \<and> wf_frame g \<and> k < length (encode_frame g) \<and>
              rem = concat (map encode_frame fs) @ take k (encode_frame g) \<longrightarrow>
            (\<exists>info'. command_loop info = Some (Inr info') \<and>
               session_of info' = session_of (foldl apply_frame eff fs) \<and>
               pending info' = take k (encode_frame g) \<and> request_buffer_ix info' = k))"
proof -
  have ixe: "request_buffer_ix info = 5 + length rest"
    using pending_length[OF p ix] by simp
  have p': "pending info = ([0, 0, 0, L] @ cmd # rest) @ []" using p by simp
  have h: "request_buffer info ! 0 = 0" "request_buffer info ! 1 = 0" "request_buffer info ! 2 = 0"
    "request_buffer info ! 3 = L" "request_buffer info ! 4 = cmd"
    using pending_nth[OF p', of 0] pending_nth[OF p', of 1] pending_nth[OF p', of 2]
      pending_nth[OF p', of 3] pending_nth[OF p', of 4] by simp_all
  have n5: "request_buffer info ! 5 = hd rest" if "rest \<noteq> []"
  proof -
    from that obtain a as where "rest = a # as" by (cases rest) auto
    then show ?thesis using pending_nth[OF p', of 5] by simp
  qed
  let ?d = "dispatch_command info"
  let ?n = "consume_command ?d (4 + L)"
  have d: "?d = eff"
    by (simp add: dispatch_command_def h Let_def eff)
  have step: "command_loop info = command_loop ?n"
    using command_loop_step[of info] h ixe complete by simp
  let ?xs = "take (unat (4 + L)) ([0, 0, 0, L] @ cmd # rest)"
  have pd: "pending ?d = ?xs @ rem"
    unfolding d rem eff using p by (simp add: pending_def)
  have ixd: "request_buffer_ix ?d \<le> length (request_buffer ?d)" using ix by (simp add: d eff)
  have len: "unat (4 + L) = length ?xs" using complete by simp
  have pn: "pending ?n = rem" by (rule consume_frame(1)[OF pd ixd len])
  have ixn: "request_buffer_ix ?n = length rem" by (rule consume_frame(2)[OF pd ixd len])
  have lenn: "length (request_buffer ?n) = length (request_buffer ?d)"
    by (rule consume_frame(3)[OF pd ixd len])
  have sn: "session_of ?n = session_of eff"
    using consume_frame(4)[OF pd ixd len] by (simp add: d)
  have ixn_le: "request_buffer_ix ?n \<le> length (request_buffer ?n)"
  proof -
    have "length (pending ?n) \<le> length (request_buffer ?n)" by (simp add: pending_def)
    then show ?thesis using pn ixn by simp
  qed
  have y5: "rest \<noteq> [] \<longrightarrow> request_buffer info ! 5 = hd rest" using n5 by simp
  have y0: "L = 0 \<longrightarrow> rem = cmd # rest" by (simp add: rem)
  have y1: "L = 1 \<longrightarrow> rem = rest" by (simp add: rem)
  note fld = session_of_thresholds[OF sn]
  have short: "\<exists>info'. command_loop info = Some (Inr info') \<and>
               session_of info' = session_of eff \<and>
               pending info' = rem \<and> request_buffer_ix info' = length rem \<and>
               (cmd = 1 \<or> cmd = 2 \<or> cmd = 3 \<or> cmd = 4 \<or> cmd = 5 \<longrightarrow>
                  send_snapshot info' = uint cmd) \<and>
               (cmd = 6 \<longrightarrow>
                  mono_threshold_r5 info' = drop_bit 3 (ucast (request_buffer info ! 5)) \<and>
                  mono_threshold_g6 info' = push_bit 5 (drop_bit 2 (ucast (request_buffer info ! 5))) \<and>
                  mono_threshold_b5 info' = push_bit 11 (drop_bit 3 (ucast (request_buffer info ! 5)))) \<and>
               (cmd = 7 \<longrightarrow> dithering info' = request_buffer info ! 5)"
    if "length rem < 5"
  proof -
    have stop: "command_loop ?n = Some (Inr ?n)"
      by (rule command_loop_stop) (use that ixn in simp)
    have s1: "cmd = 1 \<or> cmd = 2 \<or> cmd = 3 \<or> cmd = 4 \<or> cmd = 5 \<longrightarrow> send_snapshot ?n = uint cmd"
      unfolding fld(5) by (auto simp: eff)
    have s6: "cmd = 6 \<longrightarrow>
        mono_threshold_r5 ?n = drop_bit 3 (ucast (request_buffer info ! 5)) \<and>
        mono_threshold_g6 ?n = push_bit 5 (drop_bit 2 (ucast (request_buffer info ! 5))) \<and>
        mono_threshold_b5 ?n = push_bit 11 (drop_bit 3 (ucast (request_buffer info ! 5)))"
      unfolding fld(1-3) by (simp add: eff threshold_words)
    have s7: "cmd = 7 \<longrightarrow> dithering ?n = request_buffer info ! 5"
      unfolding fld(4) by (simp add: eff set_dithering_def)
    show ?thesis
      using step stop sn pn ixn s1 s6 s7 by (intro exI[of _ ?n]) simp
  qed
  have fatal: "command_loop info = Some (Inl EXIT_FAILURE)"
    if "5 \<le> length rem" "rem ! 0 \<noteq> 0 \<or> rem ! 1 \<noteq> 0 \<or> rem ! 2 \<noteq> 0"
  proof -
    have pn': "pending ?n = rem @ []" using pn by simp
    have l: "0 < length rem" "1 < length rem" "2 < length rem" using that(1) by linarith+
    have "request_buffer ?n ! 0 = rem ! 0" "request_buffer ?n ! 1 = rem ! 1"
      "request_buffer ?n ! 2 = rem ! 2"
      by (rule pending_nth[OF pn' l(1)], rule pending_nth[OF pn' l(2)], rule pending_nth[OF pn' l(3)])
    then have "command_loop ?n = Some (Inl EXIT_FAILURE)"
      using that ixn by (intro command_loop_fatal) simp_all
    then show ?thesis using step by simp
  qed
  have cont: "\<exists>info'. command_loop info = Some (Inr info') \<and>
               session_of info' = session_of (foldl apply_frame eff fs) \<and>
               pending info' = take k (encode_frame g) \<and> request_buffer_ix info' = k"
    if wfs: "\<forall>f \<in> set fs. wf_frame f" and wg: "wf_frame g" and k: "k < length (encode_frame g)"
      and r: "rem = concat (map encode_frame fs) @ take k (encode_frame g)" for fs g k
  proof -
    have pr: "pending ?n = concat (map encode_frame fs) @ take k (encode_frame g)"
      using pn r by simp
    from frames_loop[OF wfs wg k pr ixn_le] obtain i2 where
      i2: "command_loop ?n = Some (Inr i2)" "pending i2 = take k (encode_frame g)"
        "request_buffer_ix i2 = k" "session_of i2 = session_of (foldl apply_frame ?n fs)"
      by blast
    have "session_of i2 = session_of (foldl apply_frame eff fs)"
      using i2(4) session_of_foldl[OF sn, of fs] by simp
    then show ?thesis using step i2 by auto
  qed
  show ?thesis
    using y5 y0 y1 short fatal cont by blast
qed


theorem fixed_offset_reads_witness:
  "(\<exists>info'.
      command_loop (example_info\<lparr>request_buffer := [0, 0, 0, 1, 6, 0, 0, 0, 1, 3],
                                  request_buffer_ix := 10\<rparr>) = Some (Inr info') \<and>
      mono_threshold_r5 info' = 0 \<and> mono_threshold_g6 info' = 0 \<and> mono_threshold_b5 info' = 0 \<and>
      send_snapshot info' = 3 \<and> pending info' = []) \<and>
   (\<exists>info'.
      command_loop (example_info\<lparr>request_buffer := [0, 0, 0, 0, 3], request_buffer_ix := 5\<rparr>)
        = Some (Inr info') \<and>
      send_snapshot info' = 3 \<and> pending info' = [3] \<and> request_buffer_ix info' = 1) \<and>
   command_loop (example_info\<lparr>request_buffer := [0, 0, 0, 0, 3, 0, 0, 1, 3],
                               request_buffer_ix := 9\<rparr>) = Some (Inl EXIT_FAILURE)"
proof -
  let ?a = "example_info\<lparr>request_buffer := [0, 0, 0, 1, 6, 0, 0, 0, 1, 3], request_buffer_ix := 10\<rparr>"
  have pa: "pending ?a = [0, 0, 0, 1] @ 6 # [0, 0, 0, 1, 3]" by (simp add: pending_def)
  have ixa: "request_buffer_ix ?a \<le> length (request_buffer ?a)" by simp
  have ca: "unat (4 + 1 :: byte) \<le> 5 + length [0, 0, 0, 1, 3 :: byte]" by simp
  note ta = fixed_offset_reads [OF pa ixa ca refl refl]
  have ra: "drop (unat (4 + 1 :: byte)) ([0, 0, 0, 1] @ 6 # [0, 0, 0, 1, 3])
      = concat (map encode_frame [(3, [])]) @ take 0 (encode_frame (0, []))"
    by simp
  from ta[THEN conjunct2, THEN conjunct2, THEN conjunct2, THEN conjunct2, THEN conjunct2]
  have "\<forall>fs g k. (\<forall>f \<in> set fs. wf_frame f) \<and> wf_frame g \<and> k < length (encode_frame g) \<and>
      drop (unat (4 + 1 :: byte)) ([0, 0, 0, 1] @ 6 # [0, 0, 0, 1, 3])
        = concat (map encode_frame fs) @ take k (encode_frame g) \<longrightarrow>
      (\<exists>info'. command_loop ?a = Some (Inr info') \<and>
         session_of info' = session_of (foldl apply_frame
            (apply_frame ?a (6, [request_buffer ?a ! 5])) fs) \<and>
         pending info' = take k (encode_frame g) \<and> request_buffer_ix info' = k)"
    .
  from this[rule_format, of "[(3, [])]" "(0, [])" 0] ra obtain ia where
    ia: "command_loop ?a = Some (Inr ia)"
      "session_of ia = session_of (foldl apply_frame
            (apply_frame ?a (6, [request_buffer ?a ! 5])) [(3, [])])"
      "pending ia = take 0 (encode_frame (0, []))"
    by auto
  note fa = session_of_thresholds[OF ia(2)]
  have va: "mono_threshold_r5 ia = 0" "mono_threshold_g6 ia = 0" "mono_threshold_b5 ia = 0"
    "send_snapshot ia = 3"
    unfolding fa by (simp_all add: set_mono_threshold_def)
  have A: "\<exists>info'. command_loop ?a = Some (Inr info') \<and>
      mono_threshold_r5 info' = 0 \<and> mono_threshold_g6 info' = 0 \<and> mono_threshold_b5 info' = 0 \<and>
      send_snapshot info' = 3 \<and> pending info' = []"
    using ia(1,3) va by auto
  let ?b = "example_info\<lparr>request_buffer := [0, 0, 0, 0, 3], request_buffer_ix := 5\<rparr>"
  have pb: "pending ?b = [0, 0, 0, 0] @ 3 # []" by (simp add: pending_def)
  have ixb: "request_buffer_ix ?b \<le> length (request_buffer ?b)" by simp
  have cb: "unat (4 + 0 :: byte) \<le> 5 + length ([] :: byte list)" by simp
  note tb = fixed_offset_reads [OF pb ixb cb refl refl]
  have B: "\<exists>info'. command_loop ?b = Some (Inr info') \<and>
      send_snapshot info' = 3 \<and> pending info' = [3] \<and> request_buffer_ix info' = 1"
    using tb[THEN conjunct2, THEN conjunct2, THEN conjunct2, THEN conjunct1] by simp blast
  let ?c = "example_info\<lparr>request_buffer := [0, 0, 0, 0, 3, 0, 0, 1, 3], request_buffer_ix := 9\<rparr>"
  have pc: "pending ?c = [0, 0, 0, 0] @ 3 # [0, 0, 1, 3]" by (simp add: pending_def)
  have ixc: "request_buffer_ix ?c \<le> length (request_buffer ?c)" by simp
  have cc: "unat (4 + 0 :: byte) \<le> 5 + length [0, 0, 1, 3 :: byte]" by simp
  note tc = fixed_offset_reads [OF pc ixc cc refl refl]
  have C: "command_loop ?c = Some (Inl EXIT_FAILURE)"
    using tc[THEN conjunct2, THEN conjunct2, THEN conjunct2, THEN conjunct2, THEN conjunct1] by simp
  show ?thesis using A B C by blast
qed

section \<open>Closed forms of the encoder loops\<close>

lemma map_upt_Suc_shift: "map f [0 ..< Suc n] = f 0 # map (\<lambda>k. f (Suc k)) [0 ..< n]"
  by (simp add: upt_conv_Cons map_Suc_upt [symmetric] del: upt_Suc)

lemma nat_diff_step: "x < (w :: int) \<Longrightarrow> nat (w - x) = Suc (nat (w - (x + 1)))"
  by simp

lemma nat_div8_step:
  assumes lt: "x < (w :: int)"
  shows "nat ((w - x + 7) div 8) = Suc (nat ((w - (x + 8) + 7) div 8))"
proof -
  define a where "a = w - x - 1"
  have a0: "0 \<le> a" using lt by (simp add: a_def)
  have e1: "w - x + 7 = a + 8" by (simp add: a_def)
  have e2: "w - (x + 8) + 7 = a" by (simp add: a_def)
  have "(a + 8) div 8 = a div 8 + 1" by simp
  moreover have "0 \<le> a div 8" using a0 by (simp add: div_int_pos_iff)
  ultimately show ?thesis unfolding e1 e2 by (simp add: nat_add_distrib)
qed

lemma concat_uniform_length:
  "\<forall>xs \<in> set xss. length xs = n \<Longrightarrow> length (concat xss) = n * length xss"
  by (induction xss) auto

lemma concat_uniform_nth:
  "\<forall>xs \<in> set xss. length xs = n \<Longrightarrow> i < length xss \<Longrightarrow> j < n \<Longrightarrow>
   concat xss ! (i * n + j) = xss ! i ! j"
proof (induction xss arbitrary: i)
  case Nil
  then show ?case by simp
next
  case (Cons a xss)
  show ?case
  proof (cases i)
    case 0
    then show ?thesis using Cons.prems by (simp add: nth_append)
  next
    case (Suc i')
    then show ?thesis using Cons by (simp add: nth_append)
  qed
qed

lemma rgb24_row_eq:
  "rgb24_row info img x out =
     out @ concat (map (\<lambda>k. rgb24_bytes (pixel_at (buffer info) (img + x + int k)))
                     [0 ..< nat (capture_width info - x)])"
proof (induction info img x out rule: rgb24_row.induct)
  case (1 info img x out)
  show ?case
  proof (cases "x < capture_width info")
    case True
    have "rgb24_row info img x out
        = rgb24_row info img (x + 1) (out @ rgb24_bytes (pixel_at (buffer info) (img + x)))"
      using True by (subst rgb24_row.simps) simp
    also note 1[OF True]
    finally show ?thesis
      by (simp add: nat_diff_step[OF True] map_upt_Suc_shift add.assoc add.left_commute del: upt_Suc)
  next
    case False
    then show ?thesis by (subst rgb24_row.simps) simp
  qed
qed

lemma rgb24_rows_eq:
  "rgb24_rows info img y out =
     out @ concat (map (\<lambda>r. concat (map (\<lambda>k. rgb24_bytes
                      (pixel_at (buffer info) (img + int r * capture_stride info + int k)))
                        [0 ..< nat (capture_width info)]))
                     [0 ..< nat (capture_height info - y)])"
proof (induction info img y out rule: rgb24_rows.induct)
  case (1 info img y out)
  show ?case
  proof (cases "y < capture_height info")
    case True
    have "rgb24_rows info img y out
        = rgb24_rows info (img + capture_stride info) (y + 1) (rgb24_row info img 0 out)"
      using True by (subst rgb24_rows.simps) simp
    also note 1[OF True]
    finally show ?thesis
      by (simp add: nat_diff_step[OF True] map_upt_Suc_shift rgb24_row_eq algebra_simps del: upt_Suc)
  next
    case False
    then show ?thesis by (subst rgb24_rows.simps) simp
  qed
qed

section \<open>The length prefix and the bytes of a pixel\<close>

lemma be_digits:
  assumes "n < 2 ^ 32"
  shows "((n div 2 ^ 24 mod 256 * 256 + n div 2 ^ 16 mod 256) * 256 + n div 2 ^ 8 mod 256) * 256
     + n mod 256 = (n :: nat)"
proof -
  define q0 where "q0 = n div 256"
  define q1 where "q1 = q0 div 256"
  define q2 where "q2 = q1 div 256"
  have e8: "n div 2 ^ 8 = q0" by (simp add: q0_def)
  have e16: "n div 2 ^ 16 = q1"
    using div_mult2_eq[of n 256 256] by (simp add: q1_def q0_def)
  have e24: "n div 2 ^ 24 = q2"
    using div_mult2_eq[of n 65536 256] e16 by (simp add: q2_def)
  have "q2 < 256" using assms unfolding e24[symmetric] by (simp add: less_mult_imp_div_less)
  then have m: "q2 mod 256 = q2" by simp
  have a: "q2 * 256 + q1 mod 256 = q1" unfolding q2_def by simp
  have b: "q1 * 256 + q0 mod 256 = q0" unfolding q1_def by simp
  have c: "q0 * 256 + n mod 256 = n" unfolding q0_def by simp
  show ?thesis unfolding e8 e16 e24 m a b c ..
qed

lemma ff_mask: "(0xff :: 32 word) = mask 8"
  by (simp add: mask_eq_exp_minus_1)

lemma and_ff_ucast: "(ucast (w AND 0xff :: 32 word) :: byte) = ucast w"
  unfolding ff_mask by (rule bit_word_eqI) (auto simp: bit_simps)

lemma unat_low_byte: "unat (ucast (sz :: 32 word) :: byte) = unat sz mod 256"
  by (simp add: unsigned_ucast_eq take_bit_eq_mod)

lemma unat_drop_bit_div: "unat (drop_bit n (sz :: 32 word)) = unat sz div 2 ^ n"
  unfolding unat_drop_bit_eq by (simp add: drop_bit_eq_div)

lemma unat_byte_of_word:
  "unat (ucast (drop_bit n (sz :: 32 word)) :: byte) = unat sz div 2 ^ n mod 256"
  unfolding unat_low_byte unat_drop_bit_div ..

lemma length_add_packet_length [simp]: "length (add_packet_length sz) = 4"
  by (simp add: add_packet_length_def)

lemma add_packet_length_decode: "be32 (add_packet_length sz) = unat sz"
proof -
  have b: "unat sz < 2 ^ 32" using unsigned_less[of sz, where 'a = nat] by simp
  have "be32 (add_packet_length sz) =
      ((unat sz div 2 ^ 24 mod 256 * 256 + unat sz div 2 ^ 16 mod 256) * 256
         + unat sz div 2 ^ 8 mod 256) * 256 + unat sz mod 256"
    unfolding be32_def add_packet_length_def and_ff_ucast foldl.simps
      unat_byte_of_word
    by (simp only: unat_low_byte mult_0 add_0)
  also have "\<dots> = unat sz" by (rule be_digits[OF b])
  finally show ?thesis .
qed

lemma unat_length_word:
  "0 \<le> k \<Longrightarrow> k < 2 ^ 31 \<Longrightarrow> unat (word_of_int k :: 32 word) = nat k"
  by (simp add: unat_eq_nat_uint uint_word_of_int)

lemma int_and_63: "(k :: int) AND 0x3f = k mod 64"
  using take_bit_eq_mask[of 6 k] by (simp add: take_bit_eq_mod mask_eq_exp_minus_1)

lemma int_and_31: "(k :: int) AND 0x1f = k mod 32"
  using take_bit_eq_mask[of 5 k] by (simp add: take_bit_eq_mod mask_eq_exp_minus_1)

lemma uint_byte: "0 \<le> k \<Longrightarrow> k < 256 \<Longrightarrow> uint (word_of_int k :: byte) = k"
  by (simp add: uint_word_of_int)


lemma rgb24_bytes_values:
  "length (rgb24_bytes p) = 3"
  "uint (rgb24_bytes p ! 0) = uint p div 2048 * 8"
  "uint (rgb24_bytes p ! 1) = uint p div 32 mod 64 * 4"
  "uint (rgb24_bytes p ! 2) = uint p mod 32 * 8"
proof -
  have b: "uint p < 65536" using uint_bounded[of p] by simp
  have n: "0 \<le> uint p" by simp
  show "length (rgb24_bytes p) = 3" by (simp add: rgb24_bytes_def)
  have "0 \<le> uint p div 2048 * 8" "uint p div 2048 * 8 < 256"
    using b n by (simp_all add: div_int_pos_iff)
  then have "uint (word_of_int (uint p div 2048 * 8) :: byte) = uint p div 2048 * 8"
    by (rule uint_byte)
  then show "uint (rgb24_bytes p ! 0) = uint p div 2048 * 8"
    by (simp add: rgb24_bytes_def drop_bit_eq_div push_bit_eq_mult)
  have "0 \<le> uint p div 32 mod 64 * 4" "uint p div 32 mod 64 * 4 < 256" by simp_all
  then have "uint (word_of_int (uint p div 32 mod 64 * 4) :: byte) = uint p div 32 mod 64 * 4"
    by (rule uint_byte)
  then show "uint (rgb24_bytes p ! 1) = uint p div 32 mod 64 * 4"
    by (simp add: rgb24_bytes_def drop_bit_eq_div push_bit_eq_mult int_and_63)
  have "0 \<le> uint p mod 32 * 8" "uint p mod 32 * 8 < 256" by simp_all
  then have "uint (word_of_int (uint p mod 32 * 8) :: byte) = uint p mod 32 * 8"
    by (rule uint_byte)
  then show "uint (rgb24_bytes p ! 2) = uint p mod 32 * 8"
    by (simp add: rgb24_bytes_def drop_bit_eq_div push_bit_eq_mult int_and_31)
qed

section \<open>The RGB24 encoder\<close>

lemma emit_rgb24_eq:
  "emit_rgb24 info =
     add_packet_length (word_of_int (3 * capture_width info * capture_height info)) @
     concat (map (\<lambda>r. concat (map (\<lambda>k. rgb24_bytes
                      (pixel_at (buffer info) (int r * capture_stride info + int k)))
                        [0 ..< nat (capture_width info)]))
                     [0 ..< nat (capture_height info)])"
  by (simp add: emit_rgb24_def rgb24_rows_eq)

lemma rgb24_row_block:
  "length (concat (map (\<lambda>k. rgb24_bytes (f k)) [0 ..< n])) = 3 * n"
  "k < n \<Longrightarrow> j < 3 \<Longrightarrow>
     concat (map (\<lambda>k. rgb24_bytes (f k)) [0 ..< n]) ! (k * 3 + j) = rgb24_bytes (f k) ! j"
proof -
  have u: "\<forall>xs \<in> set (map (\<lambda>k. rgb24_bytes (f k)) [0 ..< n]). length xs = 3"
    by (simp add: rgb24_bytes_values(1))
  show "length (concat (map (\<lambda>k. rgb24_bytes (f k)) [0 ..< n])) = 3 * n"
    using concat_uniform_length[OF u] by simp
  show "concat (map (\<lambda>k. rgb24_bytes (f k)) [0 ..< n]) ! (k * 3 + j) = rgb24_bytes (f k) ! j"
    if "k < n" "j < 3"
    using concat_uniform_nth[OF u, of k j] that by simp
qed

lemma rgb24_payload_nth:
  assumes x: "x < w" and y: "y < h" and j: "j < 3"
  shows "concat (map (\<lambda>r. concat (map (\<lambda>k. rgb24_bytes (f r k)) [0 ..< w])) [0 ..< h])
           ! (3 * (y * w + x) + j) = rgb24_bytes (f y x) ! j"
proof -
  let ?rows = "map (\<lambda>r. concat (map (\<lambda>k. rgb24_bytes (f r k)) [0 ..< w])) [0 ..< h]"
  have u: "\<forall>xs \<in> set ?rows. length xs = 3 * w"
    by (auto simp: rgb24_row_block(1))
  have lt: "x * 3 + j < 3 * w" using x j by simp
  have "concat ?rows ! (y * (3 * w) + (x * 3 + j)) = ?rows ! y ! (x * 3 + j)"
    using concat_uniform_nth[OF u, of y "x * 3 + j"] y lt by simp
  also have "\<dots> = rgb24_bytes (f y x) ! j"
    using y rgb24_row_block(2)[OF x j, of "f y"] by simp
  finally show ?thesis by (simp add: algebra_simps)
qed

lemma rgb24_payload_length:
  "length (concat (map (\<lambda>r. concat (map (\<lambda>k. rgb24_bytes (f r k)) [0 ..< w])) [0 ..< h]))
     = 3 * w * h"
proof -
  let ?rows = "map (\<lambda>r. concat (map (\<lambda>k. rgb24_bytes (f r k)) [0 ..< w])) [0 ..< h]"
  have u: "\<forall>xs \<in> set ?rows. length xs = 3 * w"
    by (auto simp: rgb24_row_block(1))
  show ?thesis using concat_uniform_length[OF u] by simp
qed

text \<open>
  Claim C7. For a frame of \<open>width \<times> height\<close> pixels whose payload size \<open>3 * width * height\<close>
  is in the range of \<^verbatim>\<open>int\<close>, \<open>emit_rgb24\<close> writes a big-endian length prefix of
  \<open>3 * width * height\<close> followed by that many bytes, three per pixel in row-major order
  with the stride padding skipped: for the pixel \<open>p\<close> at column \<open>x\<close> of row \<open>y\<close> the bytes
  are bits 11 to 15 of \<open>p\<close> times 8, bits 5 to 10 times 4 and bits 0 to 4 times 8.
\<close>

theorem emit_rgb24_encoding:
  assumes w: "0 \<le> capture_width info" and h: "0 \<le> capture_height info"
    and range: "3 * capture_width info * capture_height info < 2 ^ 31"
  shows "be32 (take 4 (emit_rgb24 info)) = nat (3 * capture_width info * capture_height info) \<and>
         length (drop 4 (emit_rgb24 info)) = nat (3 * capture_width info * capture_height info) \<and>
         (\<forall>x < nat (capture_width info). \<forall>y < nat (capture_height info).
            uint (drop 4 (emit_rgb24 info) ! (3 * (y * nat (capture_width info) + x)))
              = uint (pixel_at (buffer info) (int y * capture_stride info + int x)) div 2048 * 8 \<and>
            uint (drop 4 (emit_rgb24 info) ! (3 * (y * nat (capture_width info) + x) + 1))
              = uint (pixel_at (buffer info) (int y * capture_stride info + int x)) div 32 mod 64 * 4 \<and>
            uint (drop 4 (emit_rgb24 info) ! (3 * (y * nat (capture_width info) + x) + 2))
              = uint (pixel_at (buffer info) (int y * capture_stride info + int x)) mod 32 * 8)"
proof -
  let ?w = "capture_width info" and ?h = "capture_height info"
  let ?f = "\<lambda>r k. pixel_at (buffer info) (int r * capture_stride info + int k)"
  let ?payload = "concat (map (\<lambda>r. concat (map (\<lambda>k. rgb24_bytes (?f r k)) [0 ..< nat ?w]))
                     [0 ..< nat ?h])"
  have nn: "0 \<le> 3 * ?w * ?h" using w h by simp
  have tk: "take 4 (emit_rgb24 info) = add_packet_length (word_of_int (3 * ?w * ?h))"
    by (simp add: emit_rgb24_eq)
  have dr: "drop 4 (emit_rgb24 info) = ?payload"
    by (simp add: emit_rgb24_eq)
  have pre: "be32 (take 4 (emit_rgb24 info)) = nat (3 * ?w * ?h)"
    unfolding tk add_packet_length_decode by (rule unat_length_word[OF nn range])
  have len: "length ?payload = nat (3 * ?w * ?h)"
    unfolding rgb24_payload_length using w h by (simp add: nat_mult_distrib)
  have byte: "uint (?payload ! (3 * (y * nat ?w + x) + j)) = uint (rgb24_bytes (?f y x) ! j)"
    if "x < nat ?w" "y < nat ?h" "j < 3" for x y j
    using rgb24_payload_nth[OF that, of ?f] by simp
  have b0: "uint (?payload ! (3 * (y * nat ?w + x))) = uint (?f y x) div 2048 * 8"
    if "x < nat ?w" "y < nat ?h" for x y
    using byte[OF that, of 0] rgb24_bytes_values(2)[of "?f y x"] by simp
  have b1: "uint (?payload ! (3 * (y * nat ?w + x) + 1)) = uint (?f y x) div 32 mod 64 * 4"
    if "x < nat ?w" "y < nat ?h" for x y
    using byte[OF that, of 1] rgb24_bytes_values(3)[of "?f y x"] by simp
  have b2: "uint (?payload ! (3 * (y * nat ?w + x) + 2)) = uint (?f y x) mod 32 * 8"
    if "x < nat ?w" "y < nat ?h" for x y
    using byte[OF that, of 2] rgb24_bytes_values(4)[of "?f y x"] by simp
  show ?thesis
    unfolding dr using pre len b0 b1 b2 by blast
qed


theorem emit_rgb24_encoding_witness:
  "be32 (take 4 (emit_rgb24 example_info)) = 192 \<and>
   length (drop 4 (emit_rgb24 example_info)) = 192 \<and>
   uint (drop 4 (emit_rgb24 example_info) ! 30) = 8 \<and>
   uint (drop 4 (emit_rgb24 example_info) ! 31) = 4 \<and>
   uint (drop 4 (emit_rgb24 example_info) ! 32) = 8"
proof -
  have w: "0 \<le> capture_width example_info" and h: "0 \<le> capture_height example_info"
    and range: "3 * capture_width example_info * capture_height example_info < 2 ^ 31"
    by (simp_all add: example_info_def)
  note t = emit_rgb24_encoding [OF w h range]
  have d: "capture_width example_info = 8" "capture_height example_info = 8"
    "capture_stride example_info = 10"
    by (simp_all add: example_info_def)
  have p: "pixel_at (buffer example_info) 12 = 0x0821"
    by (simp add: example_info_def pixel_at_def)
  from t have "\<forall>x < 8. \<forall>y < 8.
      uint (drop 4 (emit_rgb24 example_info) ! (3 * (y * 8 + x)))
        = uint (pixel_at (buffer example_info) (int y * 10 + int x)) div 2048 * 8 \<and>
      uint (drop 4 (emit_rgb24 example_info) ! (3 * (y * 8 + x) + 1))
        = uint (pixel_at (buffer example_info) (int y * 10 + int x)) div 32 mod 64 * 4 \<and>
      uint (drop 4 (emit_rgb24 example_info) ! (3 * (y * 8 + x) + 2))
        = uint (pixel_at (buffer example_info) (int y * 10 + int x)) mod 32 * 8"
    by (simp add: d)
  from this[rule_format, of 2 1] have
    "uint (drop 4 (emit_rgb24 example_info) ! 30) = 8"
    "uint (drop 4 (emit_rgb24 example_info) ! 31) = 4"
    "uint (drop 4 (emit_rgb24 example_info) ! 32) = 8"
    by (simp_all add: p)
  moreover from t have "be32 (take 4 (emit_rgb24 example_info)) = 192"
    "length (drop 4 (emit_rgb24 example_info)) = 192"
    by (simp_all add: d)
  ultimately show ?thesis by simp
qed

section \<open>The capability frame\<close>

lemma length_store32 [simp]: "length (store32 bo w) = 4"
  by (cases bo) (simp_all add: store32_def)

lemma length_store16 [simp]: "length (store16 bo w) = 2"
  by (cases bo) (simp_all add: store16_def)

lemma add_packet_length_36: "add_packet_length 36 = [0, 0, 0, 36]"
  by (simp add: add_packet_length_def)

text \<open>
  Claim C8. The capability frame that \<open>emit_capture_info\<close> builds, which \<^verbatim>\<open>main\<close> sends once
  before it enters its loop, starts with the four bytes \<open>00 00 00 24\<close>, the big-endian
  length 36, and carries a payload of exactly 36 bytes: the 16-byte backend name, then
  five 4-byte fields in the order display id, display width, display height, capture
  width, capture height.
\<close>

theorem capture_info_frame:
  assumes name: "length (backend_name info) = 16"
  shows "take 4 (emit_capture_info bo info) = [0, 0, 0, 36] \<and>
         be32 (take 4 (emit_capture_info bo info)) = 36 \<and>
         length (drop 4 (emit_capture_info bo info)) = 36 \<and>
         take 16 (drop 4 (emit_capture_info bo info)) = backend_name info \<and>
         take 4 (drop 20 (emit_capture_info bo info)) = store32 bo (display_id info) \<and>
         take 4 (drop 24 (emit_capture_info bo info)) = store32 bo (word_of_int (display_width info)) \<and>
         take 4 (drop 28 (emit_capture_info bo info)) = store32 bo (word_of_int (display_height info)) \<and>
         take 4 (drop 32 (emit_capture_info bo info)) = store32 bo (word_of_int (capture_width info)) \<and>
         take 4 (drop 36 (emit_capture_info bo info)) = store32 bo (word_of_int (capture_height info)) \<and>
         drop 40 (emit_capture_info bo info) = []"
proof -
  have pre: "take 4 (emit_capture_info bo info) = add_packet_length 36"
    by (simp add: emit_capture_info_def)
  have "be32 (add_packet_length 36) = 36"
    unfolding add_packet_length_decode by simp
  then show ?thesis
    using name by (simp add: pre) (simp add: emit_capture_info_def add_packet_length_36)
qed

theorem capture_info_frame_witness:
  "take 4 (emit_capture_info Little_endian example_info) = [0, 0, 0, 36] \<and>
   length (drop 4 (emit_capture_info Little_endian example_info)) = 36 \<and>
   take 16 (drop 4 (emit_capture_info Little_endian example_info)) = backend_name example_info \<and>
   take 4 (drop 32 (emit_capture_info Little_endian example_info)) = [8, 0, 0, 0]"
proof -
  have name: "length (backend_name example_info) = 16" by (simp add: example_info_def)
  have "store32 Little_endian (word_of_int (capture_width example_info)) = [8, 0, 0, 0]"
    by (simp add: example_info_def store32_def)
  then show ?thesis
    using capture_info_frame [OF name, of Little_endian] by simp
qed

section \<open>Closed forms of the monochrome loops\<close>

lemma bit_decision: "d = 0 \<or> d = 1 \<Longrightarrow> bit (d :: int) i \<longleftrightarrow> d = 1 \<and> i = 0"
  by (auto simp: bit_simps)

lemma bit_push_decision:
  "d = 0 \<or> d = 1 \<Longrightarrow> bit (push_bit n (d :: int)) i \<longleftrightarrow> d = 1 \<and> i = n"
  by (auto simp: bit_simps)

lemma bit_pack8:
  assumes "\<forall>j < 8. b j = 0 \<or> b j = 1" and "i < 8"
  shows "bit (pack8 b) i \<longleftrightarrow> b i = 1"
proof -
  have v: "b 0 = 0 \<or> b 0 = 1" "b 1 = 0 \<or> b 1 = 1" "b 2 = 0 \<or> b 2 = 1" "b 3 = 0 \<or> b 3 = 1"
    "b 4 = 0 \<or> b 4 = 1" "b 5 = 0 \<or> b 5 = 1" "b 6 = 0 \<or> b 6 = 1" "b 7 = 0 \<or> b 7 = 1"
    using assms(1) by simp_all
  have e: "bit (pack8 b) i \<longleftrightarrow>
      (b 0 = 1 \<and> i = 0) \<or> (b 1 = 1 \<and> i = 1) \<or> (b 2 = 1 \<and> i = 2) \<or> (b 3 = 1 \<and> i = 3) \<or>
      (b 4 = 1 \<and> i = 4) \<or> (b 5 = 1 \<and> i = 5) \<or> (b 6 = 1 \<and> i = 6) \<or> (b 7 = 1 \<and> i = 7)"
    unfolding pack8_def bit_word_of_int_iff bit_or_iff
      bit_decision[OF v(1)] bit_push_decision[OF v(2)] bit_push_decision[OF v(3)]
      bit_push_decision[OF v(4)] bit_push_decision[OF v(5)] bit_push_decision[OF v(6)]
      bit_push_decision[OF v(7)] bit_push_decision[OF v(8)]
    using assms(2) by simp
  have c: "i = 0 \<or> i = 1 \<or> i = 2 \<or> i = 3 \<or> i = 4 \<or> i = 5 \<or> i = 6 \<or> i = 7"
    using assms(2) by linarith
  show ?thesis unfolding e using c by auto
qed


lemma mono_row_eq:
  "mono_row info img x out =
     (img + 8 * int (nat ((capture_width info - x + 7) div 8)),
      out @ map (\<lambda>k. pack8 (\<lambda>i. to_1bpp info (pixel_at (buffer info) (img + 8 * int k + int i))))
              [0 ..< nat ((capture_width info - x + 7) div 8)])"
proof (induction info img x out rule: mono_row.induct)
  case (1 info img x out)
  show ?case
  proof (cases "x < capture_width info")
    case True
    define n where "n = nat ((capture_width info - (x + 8) + 7) div 8)"
    have n: "nat ((capture_width info - x + 7) div 8) = Suc n"
      using nat_div8_step[OF True] by (simp add: n_def)
    have step: "mono_row info img x out
        = mono_row info (img + 8) (x + 8)
            (out @ [pack8 (\<lambda>i. to_1bpp info (pixel_at (buffer info) (img + int i)))])"
      using True by (subst mono_row.simps) simp
    show ?thesis
      unfolding step 1[OF True] n n_def[symmetric]
      by (simp add: map_upt_Suc_shift algebra_simps del: upt_Suc)
  next
    case False
    then have "nat ((capture_width info - x + 7) div 8) = 0" by simp
    then show ?thesis using False by (subst mono_row.simps) simp
  qed
qed

lemma mono_rows_eq:
  "mono_rows info img y out =
     out @ concat (map (\<lambda>r. map (\<lambda>k. pack8 (\<lambda>i. to_1bpp info (pixel_at (buffer info)
                (img + int r * (8 * int (nat ((capture_width info + 7) div 8))
                                 + (capture_stride info - capture_width info))
                   + 8 * int k + int i))))
              [0 ..< nat ((capture_width info + 7) div 8)])
            [0 ..< nat (capture_height info - y)])"
proof (induction info img y out rule: mono_rows.induct)
  case (1 info img y out)
  show ?case
  proof (cases "y < capture_height info")
    case True
    have "mono_rows info img y out
        = mono_rows info
             (fst (mono_row info img 0 out) + (capture_stride info - capture_width info))
             (y + 1) (snd (mono_row info img 0 out))"
      using True by (subst mono_rows.simps) simp
    also note 1[OF True]
    finally show ?thesis
      by (simp add: nat_diff_step[OF True] map_upt_Suc_shift mono_row_eq algebra_simps del: upt_Suc)
  next
    case False
    then show ?thesis by (subst mono_rows.simps) simp
  qed
qed


lemma dither_row_eq:
  "dither_row info dbuf b x out =
     (b + 8 * int (nat ((capture_width info - x + 7) div 8)),
      out @ map (\<lambda>k. pack8 (\<lambda>i. if pixel_at dbuf (b + 8 * int k + int i) \<noteq> 0 then 1 else 0))
              [0 ..< nat ((capture_width info - x + 7) div 8)])"
proof (induction info dbuf b x out rule: dither_row.induct)
  case (1 info dbuf b x out)
  show ?case
  proof (cases "x < capture_width info")
    case True
    define n where "n = nat ((capture_width info - (x + 8) + 7) div 8)"
    have n: "nat ((capture_width info - x + 7) div 8) = Suc n"
      using nat_div8_step[OF True] by (simp add: n_def)
    have step: "dither_row info dbuf b x out
        = dither_row info dbuf (b + 8) (x + 8)
            (out @ [pack8 (\<lambda>i. if pixel_at dbuf (b + int i) \<noteq> 0 then 1 else 0)])"
      using True by (subst dither_row.simps) simp
    show ?thesis
      unfolding step 1[OF True] n n_def[symmetric]
      by (simp add: map_upt_Suc_shift algebra_simps del: upt_Suc)
  next
    case False
    then have "nat ((capture_width info - x + 7) div 8) = 0" by simp
    then show ?thesis using False by (subst dither_row.simps) simp
  qed
qed

lemma dither_rows_eq:
  "dither_rows info dbuf b y out =
     out @ concat (map (\<lambda>r. map (\<lambda>k. pack8 (\<lambda>i.
                if pixel_at dbuf (b + int r * (8 * int (nat ((capture_width info + 7) div 8)))
                                   + 8 * int k + int i) \<noteq> 0 then 1 else 0))
              [0 ..< nat ((capture_width info + 7) div 8)])
            [0 ..< nat (capture_height info - y)])"
proof (induction info dbuf b y out rule: dither_rows.induct)
  case (1 info dbuf b y out)
  show ?case
  proof (cases "y < capture_height info")
    case True
    have "dither_rows info dbuf b y out
        = dither_rows info dbuf (fst (dither_row info dbuf b 0 out)) (y + 1)
            (snd (dither_row info dbuf b 0 out))"
      using True by (subst dither_rows.simps) simp
    also note 1[OF True]
    finally show ?thesis
      by (simp add: nat_diff_step[OF True] map_upt_Suc_shift dither_row_eq algebra_simps del: upt_Suc)
  next
    case False
    then show ?thesis by (subst dither_rows.simps) simp
  qed
qed

lemma rotate_col_eq:
  "rotate_col info column y out =
     out @ map (\<lambda>k. pack8 (\<lambda>i. to_1bpp info
                  (pixel_at (buffer info) (column + (8 * int k + int i) * capture_stride info))))
             [0 ..< nat ((capture_height info - y + 7) div 8)]"
proof (induction info column y out rule: rotate_col.induct)
  case (1 info column y out)
  show ?case
  proof (cases "y < capture_height info")
    case True
    define n where "n = nat ((capture_height info - (y + 8) + 7) div 8)"
    have n: "nat ((capture_height info - y + 7) div 8) = Suc n"
      using nat_div8_step[OF True] by (simp add: n_def)
    have step: "rotate_col info column y out
        = rotate_col info (column + 8 * capture_stride info) (y + 8)
            (out @ [pack8 (\<lambda>i. to_1bpp info
                       (pixel_at (buffer info) (column + int i * capture_stride info)))])"
      using True by (subst rotate_col.simps) simp
    show ?thesis
      unfolding step 1[OF True] n n_def[symmetric]
      by (simp add: map_upt_Suc_shift algebra_simps del: upt_Suc)
  next
    case False
    then have "nat ((capture_height info - y + 7) div 8) = 0" by simp
    then show ?thesis using False by (subst rotate_col.simps) simp
  qed
qed

lemma rotate_cols_eq:
  "rotate_cols info img x out =
     out @ concat (map (\<lambda>c. map (\<lambda>k. pack8 (\<lambda>i. to_1bpp info
                  (pixel_at (buffer info)
                     (img + int c + (8 * int k + int i) * capture_stride info))))
              [0 ..< nat ((capture_height info + 7) div 8)])
            [0 ..< nat (capture_width info - x)])"
proof (induction info img x out rule: rotate_cols.induct)
  case (1 info img x out)
  show ?case
  proof (cases "x < capture_width info")
    case True
    have "rotate_cols info img x out
        = rotate_cols info (img + 1) (x + 1) (rotate_col info img 0 out)"
      using True by (subst rotate_cols.simps) simp
    also note 1[OF True]
    finally show ?thesis
      by (simp add: nat_diff_step[OF True] map_upt_Suc_shift rotate_col_eq algebra_simps del: upt_Suc)
  next
    case False
    then show ?thesis by (subst rotate_cols.simps) simp
  qed
qed

section \<open>The 16-bit counters of the dithered column-major loops\<close>

lemma uint16_add8: "uint (y :: 16 word) < 65528 \<Longrightarrow> uint (y + 8) = uint y + 8"
  by (simp add: uint_word_ariths take_bit_eq_mod)

lemma uint16_add1: "uint (x :: 16 word) < 65535 \<Longrightarrow> uint (x + 1) = uint x + 1"
  by (simp add: uint_word_ariths take_bit_eq_mod)

lemma rotate_dither_col_eq:
  assumes h: "capture_height info \<le> 65528"
  shows "rotate_dither_col info dbuf column y out =
     Some (out @ map (\<lambda>k. pack8 (\<lambda>i.
                if pixel_at dbuf (column + 8 * int k * capture_width info
                                   + capture_width info * int i) \<noteq> 0 then 1 else 0))
             [0 ..< nat ((capture_height info - uint y + 7) div 8)])"
proof (induction "nat (capture_height info - uint y)" arbitrary: y column out rule: less_induct)
  case less
  show ?case
  proof (cases "uint y < capture_height info")
    case True
    then have y8: "uint (y + 8) = uint y + 8" using h by (intro uint16_add8) simp
    define n where "n = nat ((capture_height info - (uint y + 8) + 7) div 8)"
    have n: "nat ((capture_height info - uint y + 7) div 8) = Suc n"
      using nat_div8_step[OF True] by (simp add: n_def)
    have dec: "nat (capture_height info - uint (y + 8)) < nat (capture_height info - uint y)"
      using True y8 by simp
    have step: "rotate_dither_col info dbuf column y out
        = rotate_dither_col info dbuf (column + 8 * capture_width info) (y + 8)
            (out @ [pack8 (\<lambda>i. if pixel_at dbuf (column + capture_width info * int i) \<noteq> 0
                                 then 1 else 0)])"
      using True by (subst rotate_dither_col.simps) simp
    show ?thesis
      unfolding step less[OF dec] y8 n n_def[symmetric]
      by (simp add: map_upt_Suc_shift algebra_simps del: upt_Suc)
  next
    case False
    then have "nat ((capture_height info - uint y + 7) div 8) = 0" by simp
    then show ?thesis using False by (subst rotate_dither_col.simps) simp
  qed
qed

lemma rotate_dither_cols_eq:
  assumes h: "capture_height info \<le> 65528" and w: "capture_width info \<le> 65535"
  shows "rotate_dither_cols info dbuf p x out =
     Some (out @ concat (map (\<lambda>c. map (\<lambda>k. pack8 (\<lambda>i.
                if pixel_at dbuf (p + int c + 8 * int k * capture_width info
                                   + capture_width info * int i) \<noteq> 0 then 1 else 0))
              [0 ..< nat ((capture_height info + 7) div 8)])
            [0 ..< nat (capture_width info - uint x)]))"
proof (induction "nat (capture_width info - uint x)" arbitrary: x p out rule: less_induct)
  case less
  show ?case
  proof (cases "uint x < capture_width info")
    case True
    then have x1: "uint (x + 1) = uint x + 1" using w by (intro uint16_add1) simp
    define n where "n = nat (capture_width info - (uint x + 1))"
    have n: "nat (capture_width info - uint x) = Suc n"
      using nat_diff_step[OF True] by (simp add: n_def)
    have dec: "nat (capture_width info - uint (x + 1)) < nat (capture_width info - uint x)"
      using True x1 by simp
    have step: "rotate_dither_cols info dbuf p x out
        = Option.bind (rotate_dither_col info dbuf p 0 out)
            (rotate_dither_cols info dbuf (p + 1) (x + 1))"
      using True by (subst rotate_dither_cols.simps) simp
    show ?thesis
      unfolding step rotate_dither_col_eq[OF h] less[OF dec] x1 n n_def[symmetric]
      by (simp add: map_upt_Suc_shift algebra_simps del: upt_Suc)
  next
    case False
    then show ?thesis by (subst rotate_dither_cols.simps) simp
  qed
qed

lemma rotate_dither_col_returns:
  assumes "rotate_dither_col info dbuf column y out = Some r"
  shows "capture_height info < 65536"
proof (rule rotate_dither_col.raw_induct
    [where P = "\<lambda>info dbuf column y out r. capture_height info < 65536", OF _ assms])
  fix f and info :: capture_info and dbuf column and y :: "16 word" and out r
  assume IH: "\<And>info dbuf column y out r.
      f info dbuf column y out = Some r \<Longrightarrow> capture_height info < 65536"
    and body: "(if uint y < capture_height info
      then f info dbuf (column + 8 * capture_width info) (y + 8)
            (out @ [pack8 (\<lambda>i. if pixel_at dbuf (column + capture_width info * int i) \<noteq> 0
                                then 1 else 0)])
      else Some out) = Some r"
  show "capture_height info < 65536"
  proof (cases "uint y < capture_height info")
    case True
    with body have "f info dbuf (column + 8 * capture_width info) (y + 8)
        (out @ [pack8 (\<lambda>i. if pixel_at dbuf (column + capture_width info * int i) \<noteq> 0
                            then 1 else 0)]) = Some r"
      by simp
    then show ?thesis by (rule IH)
  next
    case False
    moreover have "uint y < 65536" using uint_bounded[of y] by simp
    ultimately show ?thesis by simp
  qed
qed

lemma rotate_dither_col_diverges:
  assumes h: "65536 \<le> capture_height info"
  shows "rotate_dither_col info dbuf column y out = None"
proof (cases "rotate_dither_col info dbuf column y out")
  case None
  then show ?thesis .
next
  case (Some r)
  from rotate_dither_col_returns[OF Some] h show ?thesis by simp
qed

lemma emit_mono_rotate_flip_diverges:
  assumes "dithering info \<noteq> 0" and "0 < capture_width info" and "65536 \<le> capture_height info"
  shows "emit_mono_rotate_flip dithering_apply info = None"
proof -
  have "rotate_dither_cols info dbuf 0 0 out = None" for dbuf out
    using assms(2) rotate_dither_col_diverges[OF assms(3)]
    by (subst rotate_dither_cols.simps) simp
  then show ?thesis
    using assms(1) by (simp add: emit_mono_rotate_flip_def DITHERING_NONE_def Let_def)
qed

section \<open>Monochrome payloads as grids of decisions\<close>

lemma byte_grid_length [simp]: "length (byte_grid rows n f) = n * rows"
proof -
  have "\<forall>xs \<in> set (map (\<lambda>r. map (\<lambda>k. f r k) [0 ..< n]) [0 ..< rows]). length xs = n"
    by simp
  from concat_uniform_length[OF this] show ?thesis by (simp add: byte_grid_def)
qed

lemma byte_grid_nth:
  assumes "r < rows" "k < n"
  shows "byte_grid rows n f ! (r * n + k) = f r k"
proof -
  have "\<forall>xs \<in> set (map (\<lambda>r. map (\<lambda>k. f r k) [0 ..< n]) [0 ..< rows]). length xs = n"
    by simp
  from concat_uniform_nth[OF this, of r k] assms show ?thesis by (simp add: byte_grid_def)
qed

lemma decision_bit: "decision d info x y = 0 \<or> decision d info x y = 1"
  by (simp add: decision_def to_1bpp_def)

lemma bit_pack8_decision:
  "i < 8 \<Longrightarrow> bit (pack8 (\<lambda>i. decision d info (f i) (g i))) i \<longleftrightarrow> decision d info (f i) (g i) = 1"
  by (rule bit_pack8) (simp_all add: decision_bit)

lemma groups_of_8:
  assumes "0 \<le> (w :: int)" "w mod 8 = 0"
  shows "nat ((w + 7) div 8) = nat w div 8" "8 * int (nat w div 8) = w"
proof -
  from assms(2) obtain q where q: "w = 8 * q" by (auto simp: mod_eq_0_iff_dvd)
  then have q0: "0 \<le> q" using assms(1) by simp
  have "(8 * q + 7) div 8 = q" by simp
  then show "nat ((w + 7) div 8) = nat w div 8" using q0 by (simp add: q nat_mult_distrib)
  show "8 * int (nat w div 8) = w" using q0 by (simp add: q nat_mult_distrib)
qed

lemma emit_mono_grid:
  assumes w: "0 \<le> capture_width info" "capture_width info mod 8 = 0"
  shows "emit_mono d info =
     add_packet_length (word_of_int (capture_width info * capture_height info sdiv 8)) @
     byte_grid (nat (capture_height info)) (nat (capture_width info) div 8)
       (\<lambda>y g. pack8 (\<lambda>i. decision d info (8 * g + i) y))"
proof -
  note g = groups_of_8[OF w]
  show ?thesis
  proof (cases "dithering info = DITHERING_NONE")
    case True
    then show ?thesis
      by (simp add: emit_mono_def Let_def mono_rows_eq g byte_grid_def decision_def algebra_simps)
  next
    case False
    then show ?thesis
      by (simp add: emit_mono_def Let_def dither_rows_eq g byte_grid_def decision_def algebra_simps)
  qed
qed

lemma emit_mono_rotate_flip_grid:
  assumes h: "0 \<le> capture_height info" "capture_height info mod 8 = 0"
    and counters: "dithering info = DITHERING_NONE \<or>
                   (capture_width info \<le> 65535 \<and> capture_height info \<le> 65528)"
  shows "emit_mono_rotate_flip d info =
     Some (add_packet_length (word_of_int (capture_width info * capture_height info sdiv 8)) @
           byte_grid (nat (capture_width info)) (nat (capture_height info) div 8)
             (\<lambda>x k. pack8 (\<lambda>i. decision d info x (8 * k + i))))"
proof -
  note g = groups_of_8[OF h]
  show ?thesis
  proof (cases "dithering info = DITHERING_NONE")
    case True
    then show ?thesis
      by (simp add: emit_mono_rotate_flip_def Let_def rotate_cols_eq g byte_grid_def decision_def
          algebra_simps)
  next
    case False
    then have c: "capture_height info \<le> 65528" "capture_width info \<le> 65535"
      using counters by simp_all
    show ?thesis
      using False
      by (simp add: emit_mono_rotate_flip_def Let_def rotate_dither_cols_eq[OF c] g byte_grid_def
          decision_def algebra_simps)
  qed
qed

section \<open>The row-major monochrome encoder\<close>

lemma sdiv_nonneg: "0 \<le> (a :: int) \<Longrightarrow> a sdiv 8 = a div 8"
  by (simp add: signed_divide_int_def sgn_if)

lemma mono_length_prefix:
  assumes "0 \<le> capture_width info" "0 \<le> capture_height info"
    and "capture_width info * capture_height info < 2 ^ 31"
  shows "be32 (add_packet_length (word_of_int (capture_width info * capture_height info sdiv 8)))
           = nat (capture_width info * capture_height info) div 8"
proof -
  let ?a = "capture_width info * capture_height info"
  have a0: "0 \<le> ?a" using assms(1,2) by simp
  have d0: "0 \<le> ?a div 8" using a0 by (simp add: div_int_pos_iff)
  have "?a div 8 \<le> ?a" using a0 by arith
  then have d1: "?a div 8 < 2 ^ 31" using assms(3) by simp
  have "nat (?a div 8) = nat ?a div 8" using a0 by (simp add: nat_div_distrib)
  then show ?thesis
    unfolding add_packet_length_decode sdiv_nonneg[OF a0] using unat_length_word[OF d0 d1] by simp
qed

lemma pack8_cong: "(\<And>i. i < 8 \<Longrightarrow> b i = b' i) \<Longrightarrow> pack8 b = pack8 b'"
  by (simp add: pack8_def)

lemma byte_grid_cong:
  assumes "\<And>r k. r < rows \<Longrightarrow> k < n \<Longrightarrow> f r k = f' r k"
  shows "byte_grid rows n f = byte_grid rows n f'"
proof -
  have "map (\<lambda>r. map (\<lambda>k. f r k) [0 ..< n]) [0 ..< rows]
      = map (\<lambda>r. map (\<lambda>k. f' r k) [0 ..< n]) [0 ..< rows]"
    by (rule map_cong[OF refl], rule map_cong[OF refl]) (simp add: assms)
  then show ?thesis unfolding byte_grid_def by (rule arg_cong)
qed

lemma emit_mono_padding:
  assumes nodither: "dithering info = DITHERING_NONE"
    and w: "0 \<le> capture_width info" "capture_width info mod 8 = 0"
    and same: "\<forall>y < nat (capture_height info). \<forall>x < nat (capture_width info).
        pixel_at buf' (int y * capture_stride info + int x)
          = pixel_at (buffer info) (int y * capture_stride info + int x)"
  shows "emit_mono d (info\<lparr>buffer := buf'\<rparr>) = emit_mono d info"
proof -
  let ?i = "info\<lparr>buffer := buf'\<rparr>"
  have w': "0 \<le> capture_width ?i" "capture_width ?i mod 8 = 0" using w by simp_all
  have dec: "decision d ?i (8 * g + i) y = decision d info (8 * g + i) y"
    if "y < nat (capture_height info)" "g < nat (capture_width info) div 8" "i < 8" for y g i
  proof -
    have "nat (capture_width info) mod 8 = 0" using w by arith
    then have "8 * g + i < nat (capture_width info)" using that(2,3) by arith
    with same that(1) have "pixel_at buf' (int y * capture_stride info + int (8 * g + i))
        = pixel_at (buffer info) (int y * capture_stride info + int (8 * g + i))"
      by blast
    then show ?thesis
      using nodither by (simp add: decision_def to_1bpp_def)
  qed
  have "byte_grid (nat (capture_height info)) (nat (capture_width info) div 8)
          (\<lambda>y g. pack8 (\<lambda>i. decision d ?i (8 * g + i) y))
      = byte_grid (nat (capture_height info)) (nat (capture_width info) div 8)
          (\<lambda>y g. pack8 (\<lambda>i. decision d info (8 * g + i) y))"
    by (intro byte_grid_cong pack8_cong dec)
  then show ?thesis
    unfolding emit_mono_grid[OF w] emit_mono_grid[OF w'] by simp
qed


text \<open>
  Claim C6. Without dithering, for a frame whose width is divisible by 8 (and whose pixel
  count is in the range of \<^verbatim>\<open>int\<close>), \<open>emit_mono\<close> writes the length prefix
  \<open>width * height / 8\<close> and a payload of exactly that many bytes. Rows come in order, each
  with \<open>width / 8\<close> bytes; bit \<open>i\<close> of the byte of group \<open>g\<close> in row \<open>y\<close> is the
  \<open>to_1bpp\<close> decision of pixel \<open>8 * g + i\<close> of that row, which is stored at offset
  \<open>y * stride + 8 * g + i\<close>. The pixels of the stride padding contribute nothing: a frame
  buffer that agrees on the \<open>width\<close> pixels of every row gives the same output.
\<close>

theorem emit_mono_packing:
  assumes nodither: "dithering info = DITHERING_NONE"
    and w: "0 \<le> capture_width info" "capture_width info mod 8 = 0"
    and h: "0 \<le> capture_height info"
    and range: "capture_width info * capture_height info < 2 ^ 31"
  shows "be32 (take 4 (emit_mono d info)) = nat (capture_width info * capture_height info) div 8 \<and>
         length (drop 4 (emit_mono d info)) = nat (capture_width info * capture_height info) div 8 \<and>
         (\<forall>y < nat (capture_height info). \<forall>g < nat (capture_width info) div 8. \<forall>i < 8.
            bit (drop 4 (emit_mono d info) ! (y * (nat (capture_width info) div 8) + g)) i
              \<longleftrightarrow> to_1bpp info (pixel_at (buffer info)
                                (int y * capture_stride info + int (8 * g + i))) = 1) \<and>
         (\<forall>buf'. (\<forall>y < nat (capture_height info). \<forall>x < nat (capture_width info).
                    pixel_at buf' (int y * capture_stride info + int x)
                      = pixel_at (buffer info) (int y * capture_stride info + int x)) \<longrightarrow>
                emit_mono d (info\<lparr>buffer := buf'\<rparr>) = emit_mono d info)"
proof -
  let ?w = "capture_width info" and ?h = "capture_height info"
  let ?grid = "byte_grid (nat ?h) (nat ?w div 8) (\<lambda>y g. pack8 (\<lambda>i. decision d info (8 * g + i) y))"
  note e = emit_mono_grid[OF w, of d]
  have tk: "take 4 (emit_mono d info) = add_packet_length (word_of_int (?w * ?h sdiv 8))"
    and dr: "drop 4 (emit_mono d info) = ?grid"
    by (simp_all add: e)
  have pre: "be32 (take 4 (emit_mono d info)) = nat (?w * ?h) div 8"
    unfolding tk by (rule mono_length_prefix[OF w(1) h range])
  obtain q where q: "?w = 8 * q" using w(2) by (auto simp: mod_eq_0_iff_dvd)
  have q0: "0 \<le> q" using w(1) q by simp
  have len: "length ?grid = nat (?w * ?h) div 8"
    using q0 h by (simp add: q nat_mult_distrib)
  have bits: "bit (?grid ! (y * (nat ?w div 8) + g)) i
      \<longleftrightarrow> to_1bpp info (pixel_at (buffer info) (int y * capture_stride info + int (8 * g + i))) = 1"
    if "y < nat ?h" "g < nat ?w div 8" "i < 8" for y g i
  proof -
    have "?grid ! (y * (nat ?w div 8) + g) = pack8 (\<lambda>i. decision d info (8 * g + i) y)"
      by (rule byte_grid_nth[OF that(1,2)])
    then show ?thesis
      using bit_pack8_decision[OF that(3), of d info "\<lambda>i. 8 * g + i" "\<lambda>i. y"] nodither
      by (simp add: decision_def)
  qed
  have pad: "emit_mono d (info\<lparr>buffer := buf'\<rparr>) = emit_mono d info"
    if "\<forall>y < nat ?h. \<forall>x < nat ?w.
          pixel_at buf' (int y * capture_stride info + int x)
            = pixel_at (buffer info) (int y * capture_stride info + int x)" for buf'
    by (rule emit_mono_padding[OF nodither w that])
  show ?thesis
    using pre len[folded dr] bits[folded dr] pad by blast
qed


theorem emit_mono_packing_witness:
  "be32 (take 4 (emit_mono example_dither example_info)) = 8 \<and>
   length (drop 4 (emit_mono example_dither example_info)) = 8 \<and>
   (bit (drop 4 (emit_mono example_dither example_info) ! 1) 0
      \<longleftrightarrow> to_1bpp example_info (pixel_at (buffer example_info) 10) = 1) \<and>
   (bit (drop 4 (emit_mono example_dither example_info) ! 1) 2
      \<longleftrightarrow> to_1bpp example_info (pixel_at (buffer example_info) 12) = 1) \<and>
   to_1bpp example_info (pixel_at (buffer example_info) 10) = 1 \<and>
   to_1bpp example_info (pixel_at (buffer example_info) 12) = 0"
proof -
  have nodither: "dithering example_info = DITHERING_NONE"
    and w: "0 \<le> capture_width example_info" "capture_width example_info mod 8 = 0"
    and h: "0 \<le> capture_height example_info"
    and range: "capture_width example_info * capture_height example_info < 2 ^ 31"
    by (simp_all add: example_info_def DITHERING_NONE_def)
  note t = emit_mono_packing [OF nodither w h range, of example_dither]
  have d: "capture_width example_info = 8" "capture_height example_info = 8"
    "capture_stride example_info = 10"
    by (simp_all add: example_info_def)
  from t have bits: "\<forall>y < 8. \<forall>g < 1. \<forall>i < 8.
      bit (drop 4 (emit_mono example_dither example_info) ! (y * 1 + g)) i
        \<longleftrightarrow> to_1bpp example_info (pixel_at (buffer example_info)
                          (int y * 10 + int (8 * g + i))) = 1"
    by (simp add: d)
  have b0: "bit (drop 4 (emit_mono example_dither example_info) ! 1) 0
      \<longleftrightarrow> to_1bpp example_info (pixel_at (buffer example_info) 10) = 1"
    using bits[rule_format, of 1 0 0] by simp
  have b2: "bit (drop 4 (emit_mono example_dither example_info) ! 1) 2
      \<longleftrightarrow> to_1bpp example_info (pixel_at (buffer example_info) 12) = 1"
    using bits[rule_format, of 1 0 2] by simp
  have p: "to_1bpp example_info (pixel_at (buffer example_info) 10) = 1"
    "to_1bpp example_info (pixel_at (buffer example_info) 12) = 0"
    by (simp_all add: example_info_def pixel_at_def to_1bpp_def)
  from t have "be32 (take 4 (emit_mono example_dither example_info)) = 8"
    "length (drop 4 (emit_mono example_dither example_info)) = 8"
    by (simp_all add: d)
  with b0 b2 p show ?thesis by simp
qed

section \<open>Row-major against column-major\<close>

lemma div8_less:
  assumes "(x :: nat) < n" "n mod 8 = 0"
  shows "x div 8 < n div 8"
proof -
  from assms(2) obtain q where q: "n = 8 * q" by (auto simp: mod_eq_0_iff_dvd)
  have "x div 8 < q" using assms(1) unfolding q by (simp add: less_mult_imp_div_less mult.commute)
  then show ?thesis by (simp add: q)
qed

text \<open>
  Where the column-major encoder returns, it and the row-major encoder give every pixel the
  same decision: bit \<open>x mod 8\<close> of byte \<open>y * (width / 8) + x div 8\<close> of the row-major payload
  and bit \<open>y mod 8\<close> of byte \<open>x * (height / 8) + y div 8\<close> of the column-major payload are
  both the decision of pixel \<open>(x, y)\<close>. Without dithering this holds for all dimensions
  divisible by 8, with dithering for those within the 16-bit counters.
\<close>

lemma transpose_consistency:
  assumes w: "0 \<le> capture_width info" "capture_width info mod 8 = 0"
    and h: "0 \<le> capture_height info" "capture_height info mod 8 = 0"
    and counters: "dithering info = DITHERING_NONE \<or>
                   (capture_width info \<le> 65535 \<and> capture_height info \<le> 65528)"
  shows "\<exists>col. emit_mono_rotate_flip d info = Some col \<and>
           (\<forall>x < nat (capture_width info). \<forall>y < nat (capture_height info).
              (bit (drop 4 (emit_mono d info) ! (y * (nat (capture_width info) div 8) + x div 8))
                   (x mod 8) \<longleftrightarrow> decision d info x y = 1) \<and>
              (bit (drop 4 col ! (x * (nat (capture_height info) div 8) + y div 8))
                   (y mod 8) \<longleftrightarrow> decision d info x y = 1))"
proof -
  let ?w = "nat (capture_width info)" and ?h = "nat (capture_height info)"
  let ?pre = "add_packet_length (word_of_int (capture_width info * capture_height info sdiv 8))"
  let ?rows = "byte_grid ?h (?w div 8) (\<lambda>y g. pack8 (\<lambda>i. decision d info (8 * g + i) y))"
  let ?cols = "byte_grid ?w (?h div 8) (\<lambda>x k. pack8 (\<lambda>i. decision d info x (8 * k + i)))"
  have r: "drop 4 (emit_mono d info) = ?rows" by (simp add: emit_mono_grid[OF w])
  have c: "emit_mono_rotate_flip d info = Some (?pre @ ?cols)"
    by (rule emit_mono_rotate_flip_grid[OF h counters])
  have w8: "?w mod 8 = 0" and h8: "?h mod 8 = 0"
    using w h by arith+
  have rb: "bit (?rows ! (y * (?w div 8) + x div 8)) (x mod 8) \<longleftrightarrow> decision d info x y = 1"
    if "x < ?w" "y < ?h" for x y
  proof -
    have g: "x div 8 < ?w div 8" using that(1) w8 by (rule div8_less)
    have "?rows ! (y * (?w div 8) + x div 8) = pack8 (\<lambda>i. decision d info (8 * (x div 8) + i) y)"
      by (rule byte_grid_nth[OF that(2) g])
    then show ?thesis
      using bit_pack8_decision[of "x mod 8" d info "\<lambda>i. 8 * (x div 8) + i" "\<lambda>i. y"]
      by simp
  qed
  have cb: "bit (?cols ! (x * (?h div 8) + y div 8)) (y mod 8) \<longleftrightarrow> decision d info x y = 1"
    if "x < ?w" "y < ?h" for x y
  proof -
    have g: "y div 8 < ?h div 8" using that(2) h8 by (rule div8_less)
    have "?cols ! (x * (?h div 8) + y div 8) = pack8 (\<lambda>i. decision d info x (8 * (y div 8) + i))"
      by (rule byte_grid_nth[OF that(1) g])
    then show ?thesis
      using bit_pack8_decision[of "y mod 8" d info "\<lambda>i. x" "\<lambda>i. 8 * (y div 8) + i"]
      by simp
  qed
  show ?thesis
    unfolding r c using rb cb by simp
qed


text \<open>
  Claim C2. The claim covers every frame with width and height divisible by 8 in either
  dithering mode. With dithering enabled and a height of 65536 the row counter of the
  column-major encoder, a \<^verbatim>\<open>uint16_t\<close>, wraps to 0 before it reaches the height: the encoder
  does not return and gives no payload, while the row-major encoder returns its 65536
  bytes. The branch without dithering counts in \<^verbatim>\<open>int\<close>.
\<close>

theorem rotate_flip_dithered_tall_frame:
  "emit_mono_rotate_flip d tall_frame_info = None \<and>
   capture_width tall_frame_info mod 8 = 0 \<and> capture_height tall_frame_info mod 8 = 0 \<and>
   length (drop 4 (emit_mono d tall_frame_info)) = 65536"
proof -
  have "emit_mono_rotate_flip d tall_frame_info = None"
    by (rule emit_mono_rotate_flip_diverges) (simp_all add: tall_frame_info_def)
  moreover have "length (drop 4 (emit_mono d tall_frame_info)) = 65536"
  proof -
    have w: "0 \<le> capture_width tall_frame_info" "capture_width tall_frame_info mod 8 = 0"
      by (simp_all add: tall_frame_info_def)
    show ?thesis
      unfolding emit_mono_grid[OF w] by (simp add: tall_frame_info_def)
  qed
  ultimately show ?thesis by (simp add: tall_frame_info_def)
qed

theorem rotate_flip_dithered_tall_frame_witness:
  "emit_mono_rotate_flip example_dither tall_frame_info = None"
  using rotate_flip_dithered_tall_frame [of example_dither] by simp

section \<open>The size of the work buffer\<close>

lemma length_memcpy_pixels [simp]: "length (memcpy_pixels bo mem img n) = nat n"
  by (simp add: memcpy_pixels_def)

lemma rgb565_rows_eq:
  "rgb565_rows bo info img y out =
     out @ concat (map (\<lambda>r. memcpy_pixels bo (buffer info) (img + int r * capture_stride info)
                               (capture_width info * 2))
                     [0 ..< nat (capture_height info - y)])"
proof (induction bo info img y out rule: rgb565_rows.induct)
  case (1 bo info img y out)
  show ?case
  proof (cases "y < capture_height info")
    case True
    have "rgb565_rows bo info img y out
        = rgb565_rows bo info (img + capture_stride info) (y + 1)
            (out @ memcpy_pixels bo (buffer info) img (capture_width info * 2))"
      using True by (subst rgb565_rows.simps) simp
    also note 1[OF True]
    finally show ?thesis
      by (simp add: nat_diff_step[OF True] map_upt_Suc_shift algebra_simps del: upt_Suc)
  next
    case False
    then show ?thesis by (subst rgb565_rows.simps) simp
  qed
qed

lemma length_rows:
  "length (concat (map (\<lambda>r. map (f r) [0 ..< n]) [0 ..< m])) = n * m"
proof -
  have "\<forall>xs \<in> set (map (\<lambda>r. map (f r) [0 ..< n]) [0 ..< m]). length xs = n" by simp
  from concat_uniform_length[OF this] show ?thesis by simp
qed

lemma length_emit_rgb24:
  "length (emit_rgb24 info) = 4 + 3 * nat (capture_width info) * nat (capture_height info)"
  unfolding emit_rgb24_eq by (simp add: rgb24_payload_length)

lemma length_emit_rgb565:
  "length (emit_rgb565 bo info) = 4 + nat (capture_width info * 2) * nat (capture_height info)"
proof -
  let ?rows = "map (\<lambda>r. memcpy_pixels bo (buffer info) (0 + int r * capture_stride info)
                               (capture_width info * 2)) [0 ..< nat (capture_height info - 0)]"
  have "\<forall>xs \<in> set ?rows. length xs = nat (capture_width info * 2)" by simp
  from concat_uniform_length[OF this] show ?thesis
    by (simp add: emit_rgb565_def rgb565_rows_eq)
qed

lemma length_emit_mono:
  "length (emit_mono d info)
     = 4 + nat ((capture_width info + 7) div 8) * nat (capture_height info)"
  by (simp add: emit_mono_def Let_def mono_rows_eq dither_rows_eq length_rows)

lemma length_emit_mono_rotate_flip:
  assumes "dithering info = DITHERING_NONE \<or>
           (capture_width info \<le> 65535 \<and> capture_height info \<le> 65528)"
  shows "\<exists>out. emit_mono_rotate_flip d info = Some out \<and>
           length out = 4 + nat ((capture_height info + 7) div 8) * nat (capture_width info)"
proof (cases "dithering info = DITHERING_NONE")
  case True
  then show ?thesis
    by (simp add: emit_mono_rotate_flip_def Let_def rotate_cols_eq length_rows)
next
  case False
  then have c: "capture_height info \<le> 65528" "capture_width info \<le> 65535"
    using assms by simp_all
  show ?thesis
    using False
    by (simp add: emit_mono_rotate_flip_def Let_def rotate_dither_cols_eq[OF c] length_rows)
qed

lemma length_emit_capture_info: "length (emit_capture_info bo info) \<le> 40"
  by (simp add: emit_capture_info_def)

text \<open>
  Where the exact product \<open>capture_width * capture_height * 4\<close> is in the range of
  \<^verbatim>\<open>int\<close>, it is the capacity of the work buffer; at 32768 by 32768 pixels the product
  wraps around to 0.
\<close>

lemma work_capacity_exact:
  assumes "0 \<le> capture_width info * capture_height info * 4"
    and "capture_width info * capture_height info * 4 < 2 ^ 31"
  shows "work_capacity info = capture_width info * capture_height info * 4"
proof -
  have "work_capacity info
      = sint (word_of_int (capture_width info * capture_height info * 4) :: 32 word)"
    by (simp add: work_capacity_def)
  also have "\<dots> = signed_take_bit 31 (capture_width info * capture_height info * 4)"
    by (simp only: sint_sbintrunc') simp
  also have "\<dots> = capture_width info * capture_height info * 4"
    using assms by (intro signed_take_bit_int_eq_self) simp_all
  finally show ?thesis .
qed

lemma work_capacity_wraps:
  "work_capacity huge_frame_info = 0 \<and>
   length (emit_rgb24 huge_frame_info) = 4 + 3 * 32768 * 32768"
  by (simp add: work_capacity_def length_emit_rgb24 huge_frame_info_def)

text \<open>
  The frames for which the buffer suffices. For a frame with
  \<open>capture_width * capture_height \<ge> 12\<close>, positive dimensions and a capacity
  \<open>4 * width * height\<close> in the range of \<^verbatim>\<open>int\<close>, \<open>emit_capture_info\<close>, \<open>emit_rgb24\<close>,
  \<open>emit_rgb565\<close>, \<open>emit_mono\<close> in either dithering mode, and \<open>emit_mono_rotate_flip\<close>
  without dithering or with dimensions inside its 16-bit counters (width at most 65535,
  height at most 65528) each return having written at most \<open>4 + 3 * width * height\<close> bytes,
  and so does \<^verbatim>\<open>send_snapshot\<close> for every pending request; this is within the capacity of
  the work buffer.
\<close>

lemma work_buffer_sufficient:
  assumes big: "12 \<le> capture_width info * capture_height info"
    and pos: "0 < capture_width info"
    and range: "capture_width info * capture_height info * 4 < 2 ^ 31"
  shows "int (length (emit_capture_info bo info))
           \<le> 4 + 3 * capture_width info * capture_height info \<and>
         int (length (emit_rgb24 info)) \<le> 4 + 3 * capture_width info * capture_height info \<and>
         int (length (emit_rgb565 bo info)) \<le> 4 + 3 * capture_width info * capture_height info \<and>
         int (length (emit_mono d info)) \<le> 4 + 3 * capture_width info * capture_height info \<and>
         (dithering info = DITHERING_NONE \<or>
            (capture_width info \<le> 65535 \<and> capture_height info \<le> 65528) \<longrightarrow>
          (\<exists>out. emit_mono_rotate_flip d info = Some out \<and>
             int (length out) \<le> 4 + 3 * capture_width info * capture_height info) \<and>
          (\<exists>out. send_snapshot_frame d bo info = Some out \<and>
             int (length out) \<le> 4 + 3 * capture_width info * capture_height info)) \<and>
         4 + 3 * capture_width info * capture_height info \<le> work_capacity info"
proof -
  define w where "w = capture_width info"
  define h where "h = capture_height info"
  have w0: "0 < w" using pos by (simp add: w_def)
  have wh: "12 \<le> w * h" using big by (simp add: w_def h_def)
  have h0: "0 < h"
  proof (rule ccontr)
    assume "\<not> 0 < h"
    then have "w * h \<le> 0" using w0 by (simp add: mult_le_0_iff)
    with wh show False by simp
  qed
  have gw: "(w + 7) div 8 \<le> w" "0 \<le> (w + 7) div 8" using w0 by arith+
  have gh: "(h + 7) div 8 \<le> h" "0 \<le> (h + 7) div 8" using h0 by arith+
  have gwh: "(w + 7) div 8 * h \<le> w * h" using gw(1) h0 by (simp add: mult_right_mono)
  have ghw: "(h + 7) div 8 * w \<le> w * h"
    using mult_right_mono[OF gh(1), of w] w0 by (simp add: mult.commute)
  have cap: "int (length (emit_capture_info bo info)) \<le> 4 + 3 * w * h"
    using length_emit_capture_info[of bo info] wh by simp
  have e24: "int (length (emit_rgb24 info)) = 4 + 3 * (w * h)"
    unfolding length_emit_rgb24 w_def[symmetric] h_def[symmetric]
    using w0 h0 by simp
  have rgb24: "int (length (emit_rgb24 info)) \<le> 4 + 3 * w * h"
    using e24 by simp
  have e565: "int (length (emit_rgb565 bo info)) = 4 + 2 * (w * h)"
    unfolding length_emit_rgb565 w_def[symmetric] h_def[symmetric]
    using w0 h0 by (simp add: nat_mult_distrib)
  have rgb565: "int (length (emit_rgb565 bo info)) \<le> 4 + 3 * w * h"
    using e565 wh by linarith
  have emono: "int (length (emit_mono d info)) = 4 + (w + 7) div 8 * h"
    unfolding length_emit_mono w_def[symmetric] h_def[symmetric]
    using gw(2) h0 by simp
  have mono: "int (length (emit_mono d info)) \<le> 4 + 3 * w * h"
    using emono gwh wh by linarith
  have rot: "\<exists>out. emit_mono_rotate_flip d info = Some out \<and> int (length out) \<le> 4 + 3 * w * h"
    if "dithering info = DITHERING_NONE \<or> (w \<le> 65535 \<and> h \<le> 65528)"
  proof -
    from length_emit_mono_rotate_flip[of info d] that obtain out where
      o: "emit_mono_rotate_flip d info = Some out"
        "length out = 4 + nat ((h + 7) div 8) * nat w"
      unfolding w_def h_def by blast
    have "int (length out) = 4 + (h + 7) div 8 * w"
      unfolding o(2) using gh(2) w0 by simp
    then have "int (length out) \<le> 4 + 3 * w * h"
      using ghw wh by linarith
    with o(1) show ?thesis by blast
  qed
  have "work_capacity info = 4 * (w * h)"
    using work_capacity_exact[of info] big range by (simp add: w_def h_def)
  then have capa: "4 + 3 * w * h \<le> work_capacity info"
    using wh by linarith
  have snap: "\<exists>out. send_snapshot_frame d bo info = Some out \<and>
      int (length out) \<le> 4 + 3 * w * h"
    if c: "dithering info = DITHERING_NONE \<or> (w \<le> 65535 \<and> h \<le> 65528)"
  proof -
    have none: "int (length ([] :: byte list)) \<le> 4 + 3 * w * h" using wh by simp
    show ?thesis
      unfolding send_snapshot_frame_def using rgb24 rgb565 mono rot[OF c] none by auto
  qed
  show ?thesis
    using cap rgb24 rgb565 mono rot snap capa unfolding w_def h_def by blast
qed

lemma work_buffer_sufficient_example:
  "int (length (emit_capture_info Little_endian example_info)) \<le> 196 \<and>
   int (length (emit_rgb24 example_info)) \<le> 196 \<and>
   int (length (emit_rgb565 Little_endian example_info)) \<le> 196 \<and>
   int (length (emit_mono example_dither example_info)) \<le> 196 \<and>
   (\<exists>out. emit_mono_rotate_flip example_dither example_info = Some out \<and>
      int (length out) \<le> 196) \<and>
   (\<exists>out. send_snapshot_frame example_dither Little_endian example_info = Some out \<and>
      int (length out) \<le> 196) \<and>
   196 \<le> work_capacity example_info"
proof -
  have big: "12 \<le> capture_width example_info * capture_height example_info"
    and pos: "0 < capture_width example_info"
    and range: "capture_width example_info * capture_height example_info * 4 < 2 ^ 31"
    by (simp_all add: example_info_def)
  have d: "capture_width example_info = 8" "capture_height example_info = 8"
    "dithering example_info = DITHERING_NONE"
    by (simp_all add: example_info_def DITHERING_NONE_def)
  show ?thesis
    using work_buffer_sufficient [OF big pos range, of Little_endian example_dither]
    by (simp add: d)
qed

text \<open>
  Claim C10. Under the precondition \<open>capture_width * capture_height \<ge> 4\<close>, every emitter
  is to write at most \<open>4 + 3 * width * height\<close> bytes into the work buffer, within its
  capacity. The capability frame that \<^verbatim>\<open>main\<close> emits first has 40 bytes, whatever the
  dimensions. For a frame of 2 by 2 pixels, which meets the precondition,
  \<open>emit_capture_info\<close> writes these 40 bytes where the bound \<open>4 + 3 * 2 * 2\<close> and the
  capacity of the work buffer are both 16: it stores 24 bytes past the end of \<^verbatim>\<open>work\<close>.
  For a frame of 8 by 1 pixels the capacity is 32 and the 40 bytes overrun it as well. For
  a frame of 2 by 5 pixels the 40 bytes fill the buffer exactly and exceed the bound 34.
\<close>

theorem work_buffer_tiny_frame:
  "4 \<le> capture_width tiny_frame_info * capture_height tiny_frame_info \<and>
   length (emit_capture_info bo tiny_frame_info) = 40 \<and>
   4 + 3 * capture_width tiny_frame_info * capture_height tiny_frame_info = 16 \<and>
   work_capacity tiny_frame_info = 16 \<and>
   \<not> int (length (emit_capture_info bo tiny_frame_info))
       \<le> 4 + 3 * capture_width tiny_frame_info * capture_height tiny_frame_info \<and>
   \<not> int (length (emit_capture_info bo tiny_frame_info))
       \<le> work_capacity tiny_frame_info \<and>
   4 \<le> capture_width row_frame_info * capture_height row_frame_info \<and>
   length (emit_capture_info bo row_frame_info) = 40 \<and>
   work_capacity row_frame_info = 32 \<and>
   \<not> int (length (emit_capture_info bo row_frame_info)) \<le> work_capacity row_frame_info \<and>
   4 \<le> capture_width narrow_frame_info * capture_height narrow_frame_info \<and>
   length (emit_capture_info bo narrow_frame_info) = 40 \<and>
   work_capacity narrow_frame_info = 40 \<and>
   \<not> int (length (emit_capture_info bo narrow_frame_info))
       \<le> 4 + 3 * capture_width narrow_frame_info * capture_height narrow_frame_info"
proof -
  have l: "length (store32 bo w) = 4" for w
    by (cases bo) (simp_all add: store32_def)
  have n: "length (emit_capture_info bo info) = 40" if "length (backend_name info) = 16" for info
    using that by (simp add: emit_capture_info_def add_packet_length_def l)
  have t: "length (emit_capture_info bo tiny_frame_info) = 40"
    by (rule n) (simp add: tiny_frame_info_def example_info_def)
  have r: "length (emit_capture_info bo row_frame_info) = 40"
    by (rule n) (simp add: row_frame_info_def example_info_def)
  have m: "length (emit_capture_info bo narrow_frame_info) = 40"
    by (rule n) (simp add: narrow_frame_info_def example_info_def)
  have c: "work_capacity tiny_frame_info = 16" "work_capacity row_frame_info = 32"
    "work_capacity narrow_frame_info = 40"
    by (simp_all add: work_capacity_def tiny_frame_info_def row_frame_info_def
        narrow_frame_info_def)
  have d: "capture_width tiny_frame_info * capture_height tiny_frame_info = 4"
    "capture_width row_frame_info * capture_height row_frame_info = 8"
    "capture_width narrow_frame_info * capture_height narrow_frame_info = 10"
    by (simp_all add: tiny_frame_info_def row_frame_info_def narrow_frame_info_def)
  have e: "3 * capture_width tiny_frame_info * capture_height tiny_frame_info = 12"
    "3 * capture_width narrow_frame_info * capture_height narrow_frame_info = 30"
    by (simp_all add: tiny_frame_info_def narrow_frame_info_def)
  show ?thesis
    unfolding t r m c d e by simp
qed

theorem work_buffer_tiny_frame_witness:
  "emit_capture_info Little_endian tiny_frame_info =
     [0, 0, 0, 36,
      100, 105, 115, 112, 109, 97, 110, 120, 0, 0, 0, 0, 0, 0, 0, 0,
      0, 0, 0, 0, 16, 0, 0, 0, 8, 0, 0, 0, 2, 0, 0, 0, 2, 0, 0, 0] \<and>
   length (emit_capture_info Little_endian tiny_frame_info) = 40 \<and>
   work_capacity tiny_frame_info = 16"
proof -
  have "emit_capture_info Little_endian tiny_frame_info =
     [0, 0, 0, 36,
      100, 105, 115, 112, 109, 97, 110, 120, 0, 0, 0, 0, 0, 0, 0, 0,
      0, 0, 0, 0, 16, 0, 0, 0, 8, 0, 0, 0, 2, 0, 0, 0, 2, 0, 0, 0]"
    by (simp add: emit_capture_info_def tiny_frame_info_def example_info_def
        add_packet_length_def store32_def)
  then show ?thesis
    using work_buffer_tiny_frame [of Little_endian] by simp
qed

end
